theory Spec2Isabelle
  imports Main "HOL-Library.Sublist"
begin

section \<open>Strings and JSON text\<close>

text \<open>
  Python strings are modelled as \<^typ>\<open>string\<close>; a \<^typ>\<open>char\<close> stands for a code point
  below 256.  The characters that cannot be written inside a string literal get a name.
\<close>

definition dq :: char where "dq = CHR 0x22"
definition sq :: char where "sq = CHR 0x27"
definition bslash :: char where "bslash = CHR 0x5C"

definition hex_digit :: "nat \<Rightarrow> char" where
  "hex_digit n = ''0123456789abcdef'' ! (n mod 16)"

text \<open>
  \<^verbatim>\<open>json.dumps\<close> with its default \<^verbatim>\<open>ensure_ascii=True\<close>: backslash, double quote and the
  five short control escapes, every other character outside \<^verbatim>\<open>' '..'~'\<close> as \<^verbatim>\<open>\uXXXX\<close>.
\<close>

definition json_escape :: "char \<Rightarrow> string" where
  "json_escape c =
     (if c = bslash then [bslash, bslash]
      else if c = dq then [bslash, dq]
      else if c = CHR 0x08 then [bslash, CHR ''b'']
      else if c = CHR 0x0C then [bslash, CHR ''f'']
      else if c = CHR 0x0A then [bslash, CHR ''n'']
      else if c = CHR 0x0D then [bslash, CHR ''r'']
      else if c = CHR 0x09 then [bslash, CHR ''t'']
      else if 32 \<le> (of_char c :: nat) \<and> (of_char c :: nat) \<le> 126 then [c]
      else [bslash, CHR ''u'', CHR ''0'', CHR ''0'',
            hex_digit ((of_char c :: nat) div 16), hex_digit (of_char c :: nat)])"

definition json_dumps_str :: "string \<Rightarrow> string" where
  "json_dumps_str s = [dq] @ concat (map json_escape s) @ [dq]"

fun join :: "string \<Rightarrow> string list \<Rightarrow> string" where
  "join sep [] = []"
| "join sep [x] = x"
| "join sep (x # y # ys) = x @ sep @ join sep (y # ys)"

text \<open>A Python dict with string values, in insertion order, and its \<^verbatim>\<open>json.dumps\<close>.\<close>

type_synonym pydict = "(string \<times> string) list"

definition json_dumps_dict :: "pydict \<Rightarrow> string" where
  "json_dumps_dict d =
     ''{'' @ join '', '' (map (\<lambda>(k, v). json_dumps_str k @ '': '' @ json_dumps_str v) d) @ ''}''"

text \<open>
  Reading a JSON text, as the receiving end of the socket does: the grammar of RFC 8259 for
  an object whose members are strings, with white space allowed around the structural
  characters.  Inside a string a raw control character is refused, a backslash introduces
  one of the eight short escapes or \<^verbatim>\<open>\uXXXX\<close>; code points are below 256 here as everywhere.
\<close>

definition hex_val :: "char \<Rightarrow> nat option" where
  "hex_val c = map_of (zip ''0123456789abcdefABCDEF''
                   [0, 1, 2, 3, 4, 5, 6, 7, 8, 9, 10, 11, 12, 13, 14, 15, 10, 11, 12, 13, 14, 15]) c"

definition unescape :: "char \<Rightarrow> char option" where
  "unescape e =
     map_of [(dq, dq), (bslash, bslash), (CHR ''/'', CHR ''/''), (CHR ''b'', CHR 0x08),
             (CHR ''f'', CHR 0x0C), (CHR ''n'', CHR 0x0A), (CHR ''r'', CHR 0x0D),
             (CHR ''t'', CHR 0x09)] e"

definition push :: "char \<Rightarrow> (string \<times> string) option \<Rightarrow> (string \<times> string) option" where
  "push c r = map_option (\<lambda>(x, rest). (c # x, rest)) r"

fun json_chars :: "string \<Rightarrow> (string \<times> string) option"
  and json_escaped :: "string \<Rightarrow> (string \<times> string) option"
  and json_hex :: "string \<Rightarrow> (string \<times> string) option" where
  "json_chars [] = None"
| "json_chars (c # s) =
     (if c = dq then Some ([], s)
      else if c = bslash then json_escaped s
      else if (of_char c :: nat) < 32 then None
      else push c (json_chars s))"
| "json_escaped [] = None"
| "json_escaped (e # s) =
     (if e = CHR ''u'' then json_hex s
      else (case unescape e of None \<Rightarrow> None | Some x \<Rightarrow> push x (json_chars s)))"
| "json_hex (h1 # h2 # h3 # h4 # s) =
     (case (hex_val h1, hex_val h2, hex_val h3, hex_val h4) of
        (Some a, Some b, Some c, Some d) \<Rightarrow>
          if ((a * 16 + b) * 16 + c) * 16 + d < 256
          then push (char_of (((a * 16 + b) * 16 + c) * 16 + d)) (json_chars s)
          else None
      | _ \<Rightarrow> None)"
| "json_hex _ = None"

text \<open>
  The members of an object after its opening brace, in the order of the text.  The number
  bounds the members read; the length of the text is always enough.
\<close>

definition skip_ws :: "string \<Rightarrow> string" where
  "skip_ws = dropWhile (\<lambda>c. c \<in> set [CHR '' '', CHR 0x09, CHR 0x0A, CHR 0x0D])"

definition json_string :: "string \<Rightarrow> (string \<times> string) option" where
  "json_string s = (case skip_ws s of [] \<Rightarrow> None | c # r \<Rightarrow> if c = dq then json_chars r else None)"

definition expect :: "char \<Rightarrow> string \<Rightarrow> string option" where
  "expect c s = (case skip_ws s of [] \<Rightarrow> None | x # r \<Rightarrow> if x = c then Some r else None)"

fun json_members :: "nat \<Rightarrow> string \<Rightarrow> pydict option" where
  "json_members 0 s = None"
| "json_members (Suc n) s =
     (case json_string s of
        None \<Rightarrow> None
      | Some (k, s1) \<Rightarrow>
          (case expect (CHR '':'') s1 of
             None \<Rightarrow> None
           | Some s2 \<Rightarrow>
               (case json_string s2 of
                  None \<Rightarrow> None
                | Some (v, s3) \<Rightarrow>
                    (case skip_ws s3 of
                       [] \<Rightarrow> None
                     | c # s4 \<Rightarrow>
                         if c = CHR '','' then map_option ((#) (k, v)) (json_members n s4)
                         else if c = CHR ''}'' \<and> skip_ws s4 = [] then Some [(k, v)]
                         else None))))"

definition json_loads :: "string \<Rightarrow> pydict option" where
  "json_loads text =
     (case expect (CHR ''{'') text of
        None \<Rightarrow> None
      | Some s \<Rightarrow>
          if (case expect (CHR ''}'') s of None \<Rightarrow> False | Some r \<Rightarrow> skip_ws r = []) then Some []
          else json_members (length text) s)"

section \<open>What a plugin asks the framework to collect\<close>

text \<open>
  \<^verbatim>\<open>add_dir_listing\<close>, \<^verbatim>\<open>add_copy_spec\<close>, \<^verbatim>\<open>add_cmd_output\<close> and \<^verbatim>\<open>add_alert\<close> each record one
  request with the plugin; the model returns the requests in the order of the calls.
\<close>

datatype action =
    DirListing (target: string) (suggest_filename: string) (subdir: string)
  | CopySpec (copyspecs: "string list")
  | CmdOutput (cmd: string) (suggest_filename: string) (subdir: string)
  | Alert (message: string)

datatype collection =
    microceph_hook | microovn_hook | microcloud_hook | microk8s_hook | lxd_hook

record cfg =
  db_path :: string
  socket :: string
  sql_cmd :: "string option"
  socket_endpoint :: string
  collection :: collection

section \<open>dqlite: the socket and CLI transports\<close>

definition query_payload :: "string \<Rightarrow> string \<Rightarrow> pydict" where
  "query_payload pkg query =
     (if pkg = ''lxd'' then [(''query'', query), (''database'', ''local'')]
      else [(''query'', query)])"

definition curl_cmd :: "string \<Rightarrow> string \<Rightarrow> string" where
  "curl_cmd sock endpoint =
     ''\<newline>            curl -s --unix-socket '' @ sock @ '' '' @
     ''                -X POST '' @ endpoint @ '' '' @
     ''                -H '' @ [dq] @ ''Content-Type: application/json'' @ [dq] @ '' '' @
     ''                -d\<newline>            ''"

definition socket_cmd :: "string \<Rightarrow> cfg \<Rightarrow> string \<Rightarrow> string" where
  "socket_cmd pkg cfg query =
     curl_cmd (socket cfg) (socket_endpoint cfg) @ '' '' @ [sq] @
     json_dumps_dict (query_payload pkg query) @ [sq]"

text \<open>Python truthiness of \<^verbatim>\<open>cfg.get("sql_cmd")\<close>: \<^verbatim>\<open>None\<close> and the empty string are false.\<close>

definition truthy :: "string option \<Rightarrow> bool" where
  "truthy v = (case v of None \<Rightarrow> False | Some s \<Rightarrow> s \<noteq> [])"

definition batch_step :: "string \<Rightarrow> cfg \<Rightarrow> string \<times> string \<Rightarrow> action list" where
  "batch_step pkg cfg qt =
     (case qt of (query, table) \<Rightarrow>
        CmdOutput (socket_cmd pkg cfg query) (pkg @ ''_dqlite_'' @ table) pkg #
        (if truthy (sql_cmd cfg)
         then [CmdOutput (the (sql_cmd cfg) @ '' '' @ json_dumps_str query)
                 (the (sql_cmd cfg) @ ''_'' @ table) pkg]
         else []))"

definition run_batch_dqlite_queries ::
  "string \<Rightarrow> cfg \<Rightarrow> string list \<Rightarrow> string list \<Rightarrow> action list" where
  "run_batch_dqlite_queries pkg cfg queries tables =
     concat (map (batch_step pkg cfg) (zip queries tables))"

section \<open>dqlite: the base plan\<close>

definition q_schema :: string where
  \<open>q_schema = ''SELECT * FROM sqlite_master WHERE type="table";''\<close>

definition q_token_records :: string where
  "q_token_records = ''SELECT id, name, expiry_date FROM core_token_records;''"

definition q_cluster_members :: string where
  "q_cluster_members =
     ''SELECT id, name, address, schema_internal, '' @
     ''                    schema_external, heartbeat, role, api_extensions '' @
     ''                    FROM core_cluster_members;''"

definition q_config :: string where
  \<open>q_config =
     ''SELECT * FROM config WHERE NOT ( '' @
     ''                    key LIKE "%keyring%" OR '' @
     ''                    key LIKE "%ca_cert%" OR '' @
     ''                    key LIKE "%ca_key%" '' @
     ''                );''\<close>

definition q_services :: string where
  "q_services = ''SELECT * FROM services;''"

text \<open>
  The two lists \<^verbatim>\<open>queries\<close> and \<^verbatim>\<open>tables\<close> that \<^verbatim>\<open>base_collection\<close> builds for a package
  other than microk8s, extended in the source's order.
\<close>

definition base_queries :: "string \<Rightarrow> string list" where
  "base_queries pkg =
     [q_schema]
     @ (if pkg \<notin> set [''lxd''] then [q_token_records, q_cluster_members] else [])
     @ (if pkg \<notin> set [''microcloud''] then [q_config] else [])
     @ (if pkg \<in> set [''microceph'', ''microovn''] then [q_services] else [])"

definition base_tables :: "string \<Rightarrow> string list" where
  "base_tables pkg =
     [''schema'']
     @ (if pkg \<notin> set [''lxd''] then [''token_records'', ''core_cluster_members''] else [])
     @ (if pkg \<notin> set [''microcloud''] then [''config''] else [])
     @ (if pkg \<in> set [''microceph'', ''microovn''] then [''services''] else [])"

definition base_collection :: "string \<Rightarrow> cfg \<Rightarrow> action list" where
  "base_collection pkg cfg =
     [DirListing (db_path cfg) (''ls_'' @ pkg @ ''_dqlite_dir'') pkg,
      CopySpec [db_path cfg @ ''/info.yaml'', db_path cfg @ ''/cluster.yaml'',
                db_path cfg @ ''/../daemon.yaml'']]
     @ (if pkg = ''microk8s'' then []
        else run_batch_dqlite_queries pkg cfg (base_queries pkg) (base_tables pkg))"

definition microceph_collection :: "string \<Rightarrow> cfg \<Rightarrow> action list" where
  "microceph_collection pkg cfg =
     run_batch_dqlite_queries pkg cfg
       [''SELECT * FROM disks;'', ''SELECT * FROM client_config;'', ''SELECT * FROM remote;'']
       [''disks'', ''client_config'', ''remote'']"

definition microovn_collection :: "string \<Rightarrow> cfg \<Rightarrow> action list" where
  "microovn_collection pkg cfg = []"

definition microcloud_collection :: "string \<Rightarrow> cfg \<Rightarrow> action list" where
  "microcloud_collection pkg cfg = []"

definition lxd_collection :: "string \<Rightarrow> cfg \<Rightarrow> action list" where
  "lxd_collection pkg cfg = []"

section \<open>Regular expressions as Python's \<^verbatim>\<open>re\<close> matches them\<close>

text \<open>
  The patterns of the plugins use literals, alternatives of literals, an optional literal,
  the classes \<^verbatim>\<open>\s\<close>, \<^verbatim>\<open>\S\<close>, \<^verbatim>\<open>\d\<close> and \<^verbatim>\<open>.\<close> (once, or under \<^verbatim>\<open>*\<close>, \<^verbatim>\<open>+\<close>, \<^verbatim>\<open>*?\<close>), the anchor
  \<^verbatim>\<open>^\<close> and capture groups.  The matcher backtracks as \<^verbatim>\<open>re\<close> does: a greedy quantifier
  tries the longest repetition first, a lazy one the shortest, alternatives are tried from
  left to right, and the first way that lets the rest of the pattern match is taken.
\<close>

datatype cls = Space | NonSpace | Digit | AnyChar

definition is_space :: "char \<Rightarrow> bool" where
  "is_space c \<longleftrightarrow>
     c \<in> set [CHR 0x09, CHR 0x0A, CHR 0x0B, CHR 0x0C, CHR 0x0D, CHR 0x1C, CHR 0x1D,
              CHR 0x1E, CHR 0x1F, CHR 0x20, CHR 0x85, CHR 0xA0]"

definition is_digit :: "char \<Rightarrow> bool" where
  "is_digit c \<longleftrightarrow> c \<in> set ''0123456789''"

fun in_cls :: "cls \<Rightarrow> char \<Rightarrow> bool" where
  "in_cls Space c = is_space c"
| "in_cls NonSpace c = (\<not> is_space c)"
| "in_cls Digit c = is_digit c"
| "in_cls AnyChar c = (c \<noteq> CHR 0x0A)"

datatype rx =
    Bol
  | Lit string
  | Alt "string list"
  | Opt string
  | One cls
  | Star cls
  | Plus cls
  | Lazy cls
  | Group nat "rx list"

text \<open>
  Under \<^verbatim>\<open>re.IGNORECASE\<close> a pattern letter matches both of its cases; the literals of the
  patterns below are ASCII, for which this is all the flag does on code points below 256.
\<close>

definition upper_case :: string where
  "upper_case = ''ABCDEFGHIJKLMNOPQRSTUVWXYZ''"

definition lower_case :: string where
  "lower_case = ''abcdefghijklmnopqrstuvwxyz''"

definition lower :: "char \<Rightarrow> char" where
  "lower c = (case map_of (zip upper_case lower_case) c of Some l \<Rightarrow> l | None \<Rightarrow> c)"

definition chr_eq :: "bool \<Rightarrow> char \<Rightarrow> char \<Rightarrow> bool" where
  "chr_eq ic p c = (if ic then lower p = lower c else p = c)"

fun lit_prefix :: "bool \<Rightarrow> string \<Rightarrow> string \<Rightarrow> bool" where
  "lit_prefix ic [] s = True"
| "lit_prefix ic (p # ps) [] = False"
| "lit_prefix ic (p # ps) (x # xs) = (chr_eq ic p x \<and> lit_prefix ic ps xs)"

type_synonym groups = "nat \<rightharpoonup> string"

text \<open>
  A continuation receives whether the position is still the start of the subject, the
  rest of the subject and the groups captured so far.
\<close>

type_synonym 'a cont = "bool \<Rightarrow> string \<Rightarrow> groups \<Rightarrow> 'a option"

fun greedy :: "cls \<Rightarrow> 'a cont \<Rightarrow> 'a cont" where
  "greedy c k b [] g = k b [] g"
| "greedy c k b (x # xs) g =
     (if in_cls c x
      then (case greedy c k False xs g of Some r \<Rightarrow> Some r | None \<Rightarrow> k b (x # xs) g)
      else k b (x # xs) g)"

fun lazy :: "cls \<Rightarrow> 'a cont \<Rightarrow> 'a cont" where
  "lazy c k b [] g = k b [] g"
| "lazy c k b (x # xs) g =
     (case k b (x # xs) g of
        Some r \<Rightarrow> Some r
      | None \<Rightarrow> if in_cls c x then lazy c k False xs g else None)"

definition lit :: "bool \<Rightarrow> string \<Rightarrow> 'a cont \<Rightarrow> 'a cont" where
  "lit ic l k b s g =
     (if lit_prefix ic l s then k (b \<and> l = []) (drop (length l) s) g else None)"

fun alts :: "bool \<Rightarrow> string list \<Rightarrow> 'a cont \<Rightarrow> 'a cont" where
  "alts ic [] k b s g = None"
| "alts ic (l # ls) k b s g =
     (case lit ic l k b s g of Some r \<Rightarrow> Some r | None \<Rightarrow> alts ic ls k b s g)"

fun rm :: "bool \<Rightarrow> rx \<Rightarrow> 'a cont \<Rightarrow> 'a cont"
  and rms :: "bool \<Rightarrow> rx list \<Rightarrow> 'a cont \<Rightarrow> 'a cont" where
  "rm ic Bol k b s g = (if b then k b s g else None)"
| "rm ic (Lit l) k b s g = lit ic l k b s g"
| "rm ic (Alt ls) k b s g = alts ic ls k b s g"
| "rm ic (Opt l) k b s g =
     (case lit ic l k b s g of Some r \<Rightarrow> Some r | None \<Rightarrow> k b s g)"
| "rm ic (One c) k b s g =
     (case s of [] \<Rightarrow> None | x # xs \<Rightarrow> if in_cls c x then k False xs g else None)"
| "rm ic (Star c) k b s g = greedy c k b s g"
| "rm ic (Plus c) k b s g =
     (case s of [] \<Rightarrow> None | x # xs \<Rightarrow> if in_cls c x then greedy c k False xs g else None)"
| "rm ic (Lazy c) k b s g = lazy c k b s g"
| "rm ic (Group n rs) k b s g =
     rms ic rs (\<lambda>b' s' g'. k b' s' (g'(n \<mapsto> take (length s - length s') s))) b s g"
| "rms ic [] k b s g = k b s g"
| "rms ic (r # rs) k b s g = rm ic r (\<lambda>b' s' g'. rms ic rs k b' s' g') b s g"

text \<open>One attempt at a position: the groups of the match and the subject after it.\<close>

definition match_at :: "bool \<Rightarrow> rx list \<Rightarrow> bool \<Rightarrow> string \<Rightarrow> (groups \<times> string) option" where
  "match_at ic rs b s = rms ic rs (\<lambda>b' s' g'. Some (g', s')) b s Map.empty"

text \<open>
  The scan of \<^verbatim>\<open>re.findall\<close> and \<^verbatim>\<open>re.sub\<close>: the leftmost match at each position, the
  next attempt where the match ended; a character no match starts at is passed over, and
  an empty match is followed by the character it stands before.
\<close>

datatype piece = Gap char | Hit groups

fun scan :: "bool \<Rightarrow> rx list \<Rightarrow> bool \<Rightarrow> string \<Rightarrow> piece list" where
  "scan ic rs b [] = (case match_at ic rs b [] of None \<Rightarrow> [] | Some (g, s') \<Rightarrow> [Hit g])"
| "scan ic rs b (x # xs) =
     (case match_at ic rs b (x # xs) of
        None \<Rightarrow> Gap x # scan ic rs False xs
      | Some (g, s') \<Rightarrow>
          if length s' \<le> length xs then Hit g # scan ic rs False s'
          else Hit g # Gap x # scan ic rs False xs)"

definition grp :: "groups \<Rightarrow> nat \<Rightarrow> string" where
  "grp g n = (case g n of None \<Rightarrow> [] | Some x \<Rightarrow> x)"

text \<open>\<^verbatim>\<open>re.findall\<close> for a pattern with one group: the text of group 1 of every match.\<close>

definition findall :: "rx list \<Rightarrow> string \<Rightarrow> string list" where
  "findall rs s =
     concat (map (\<lambda>p. case p of Gap c \<Rightarrow> [] | Hit g \<Rightarrow> [grp g 1]) (scan False rs True s))"

text \<open>A replacement template: literal text and group references.\<close>

datatype titem = Txt string | Ref nat

definition expand :: "titem list \<Rightarrow> groups \<Rightarrow> string" where
  "expand tmpl g = concat (map (\<lambda>t. case t of Txt x \<Rightarrow> x | Ref n \<Rightarrow> grp g n) tmpl)"

definition re_sub :: "bool \<Rightarrow> rx list \<Rightarrow> titem list \<Rightarrow> string \<Rightarrow> string" where
  "re_sub ic rs tmpl s =
     concat (map (\<lambda>p. case p of Gap c \<Rightarrow> [c] | Hit g \<Rightarrow> expand tmpl g) (scan ic rs True s))"

subsection \<open>What a pattern matches\<close>

text \<open>
  The texts a pattern can match and the groups it captures, without the order in which
  the matcher tries them: \<open>sem ic r b a g g'\<close> holds when \<open>r\<close> can consume \<open>a\<close> at a position
  that is (\<open>b\<close>) or is not the start of the subject, turning the groups \<open>g\<close> into \<open>g'\<close>.
\<close>

definition lit_match :: "bool \<Rightarrow> string \<Rightarrow> string \<Rightarrow> bool" where
  "lit_match ic l a \<longleftrightarrow> list_all2 (chr_eq ic) l a"

fun sem :: "bool \<Rightarrow> rx \<Rightarrow> bool \<Rightarrow> string \<Rightarrow> groups \<Rightarrow> groups \<Rightarrow> bool"
  and sems :: "bool \<Rightarrow> rx list \<Rightarrow> bool \<Rightarrow> string \<Rightarrow> groups \<Rightarrow> groups \<Rightarrow> bool" where
  "sem ic Bol b a g g' = (b \<and> a = [] \<and> g' = g)"
| "sem ic (Lit l) b a g g' = (lit_match ic l a \<and> g' = g)"
| "sem ic (Alt ls) b a g g' = (list_ex (\<lambda>l. lit_match ic l a) ls \<and> g' = g)"
| "sem ic (Opt l) b a g g' = ((lit_match ic l a \<or> a = []) \<and> g' = g)"
| "sem ic (One c) b a g g' = (length a = 1 \<and> list_all (in_cls c) a \<and> g' = g)"
| "sem ic (Star c) b a g g' = (list_all (in_cls c) a \<and> g' = g)"
| "sem ic (Plus c) b a g g' = (a \<noteq> [] \<and> list_all (in_cls c) a \<and> g' = g)"
| "sem ic (Lazy c) b a g g' = (list_all (in_cls c) a \<and> g' = g)"
| "sem ic (Group n rs) b a g g' = (\<exists>g0. sems ic rs b a g g0 \<and> g' = g0(n \<mapsto> a))"
| "sems ic [] b a g g' = (a = [] \<and> g' = g)"
| "sems ic (r # rs) b a g g' =
     (\<exists>a1 a2 g1. a = a1 @ a2 \<and> sem ic r b a1 g g1 \<and> sems ic rs (b \<and> a1 = []) a2 g1 g')"

text \<open>
  A sufficient condition for the way the matcher takes first: \<open>pick ic r b a s' g g'\<close> holds
  when \<open>r\<close> can consume \<open>a\<close> before \<open>s'\<close> and nothing the matcher tries earlier applies: a
  greedy repetition cannot go on into \<open>s'\<close>, an earlier alternative and an optional literal
  left out do not fit the text, a lazy repetition takes nothing.
\<close>

definition stops :: "cls \<Rightarrow> string \<Rightarrow> bool" where
  "stops c s' = (case s' of [] \<Rightarrow> True | x # xs \<Rightarrow> \<not> in_cls c x)"

fun pick_alt :: "bool \<Rightarrow> string list \<Rightarrow> string \<Rightarrow> string \<Rightarrow> bool" where
  "pick_alt ic [] a s' = False"
| "pick_alt ic (l # ls) a s' =
     (lit_match ic l a \<or> (\<not> lit_prefix ic l (a @ s') \<and> pick_alt ic ls a s'))"

fun pick :: "bool \<Rightarrow> rx \<Rightarrow> bool \<Rightarrow> string \<Rightarrow> string \<Rightarrow> groups \<Rightarrow> groups \<Rightarrow> bool"
  and picks :: "bool \<Rightarrow> rx list \<Rightarrow> bool \<Rightarrow> string \<Rightarrow> string \<Rightarrow> groups \<Rightarrow> groups \<Rightarrow> bool" where
  "pick ic Bol b a s' g g' = (b \<and> a = [] \<and> g' = g)"
| "pick ic (Lit l) b a s' g g' = (lit_match ic l a \<and> g' = g)"
| "pick ic (Alt ls) b a s' g g' = (pick_alt ic ls a s' \<and> g' = g)"
| "pick ic (Opt l) b a s' g g' =
     ((lit_match ic l a \<or> (a = [] \<and> \<not> lit_prefix ic l s')) \<and> g' = g)"
| "pick ic (One c) b a s' g g' = (length a = 1 \<and> list_all (in_cls c) a \<and> g' = g)"
| "pick ic (Star c) b a s' g g' = (list_all (in_cls c) a \<and> stops c s' \<and> g' = g)"
| "pick ic (Plus c) b a s' g g' = (a \<noteq> [] \<and> list_all (in_cls c) a \<and> stops c s' \<and> g' = g)"
| "pick ic (Lazy c) b a s' g g' = (a = [] \<and> g' = g)"
| "pick ic (Group n rs) b a s' g g' = (\<exists>g0. picks ic rs b a s' g g0 \<and> g' = g0(n \<mapsto> a))"
| "picks ic [] b a s' g g' = (a = [] \<and> g' = g)"
| "picks ic (r # rs) b a s' g g' =
     (\<exists>a1 a2 g1. a = a1 @ a2 \<and> pick ic r b a1 (a2 @ s') g g1 \<and>
        picks ic rs (b \<and> a1 = []) a2 s' g1 g')"

section \<open>dqlite: the microk8s hook\<close>

text \<open>
  The file system is a parameter: reading a path gives its text, or the message of the
  exception that \<^verbatim>\<open>open\<close> or \<^verbatim>\<open>read\<close> raised.
\<close>

type_synonym exn = string
type_synonym filesystem = "string \<Rightarrow> exn + string"

text \<open>The pattern \<^verbatim>\<open>Address:\s*(\d+\.\d+\.\d+\.\d+:\d+)\<close>.\<close>

definition address_rx :: "rx list" where
  "address_rx =
     [Lit ''Address:'', Star Space,
      Group 1 [Plus Digit, Lit ''.'', Plus Digit, Lit ''.'', Plus Digit, Lit ''.'', Plus Digit,
               Lit '':'', Plus Digit]]"

definition fixed_queries :: "string list" where
  "fixed_queries =
     [[dq] @ ''.cluster'' @ [dq], [dq] @ ''.cluster'' @ [dq] @ '' -f json'',
      [dq] @ ''.leader'' @ [dq]]"

definition describe_query :: "string \<Rightarrow> string" where
  "describe_query node = [dq] @ ''.describe '' @ node @ [dq] @ '' -f json''"

definition dqlite_cmd :: "cfg \<Rightarrow> string" where
  "dqlite_cmd cfg =
     ''/snap/microk8s/current/bin/dqlite'' @ '' -c '' @ (db_path cfg @ ''/cluster.crt'') @
     '' -k '' @ (db_path cfg @ ''/cluster.key'') @
     '' -s file://'' @ (db_path cfg @ ''/cluster.yaml'') @ '' k8s''"

text \<open>
  The \<^verbatim>\<open>try\<close> block either extends both lists by one entry per address found, or leaves
  them as they are and records the alert.
\<close>

definition microk8s_collection :: "filesystem \<Rightarrow> string \<Rightarrow> cfg \<Rightarrow> action list" where
  "microk8s_collection fs pkg cfg =
     (let servers = db_path cfg @ ''/cluster.yaml'';
          queries = fixed_queries;
          suggested_names = map (\<lambda>query. pkg @ ''_dqlite_'' @ query) queries
      in CopySpec [''/var/snap/microk8s/current/credentials/client.config'',
                   db_path cfg @ ''/failure-domain'']
         # (case fs servers of
              Inr cluster \<Rightarrow>
                (let nodes = findall address_rx cluster
                 in map (\<lambda>(query, suggested_name).
                           CmdOutput (dqlite_cmd cfg @ '' '' @ query) suggested_name pkg)
                      (zip (queries @ map describe_query nodes)
                           (suggested_names @ map (\<lambda>node. pkg @ ''_dqlite_.describe_'' @ node) nodes)))
            | Inl e \<Rightarrow>
                Alert (''Failed to parse '' @ servers @ '': '' @ e)
                # map (\<lambda>(query, suggested_name).
                         CmdOutput (dqlite_cmd cfg @ '' '' @ query) suggested_name pkg)
                    (zip queries suggested_names)))"

section \<open>dqlite: the registry and \<^verbatim>\<open>setup\<close>\<close>

definition packages :: "(string \<times> cfg) list" where
  "packages =
     [(''microceph'',
       \<lparr>db_path = ''/var/snap/microceph/common/state/database'',
        socket = ''/var/snap/microceph/common/state/control.socket'',
        sql_cmd = Some ''microceph cluster sql'',
        socket_endpoint = ''microceph/core/internal/sql'',
        collection = microceph_hook\<rparr>),
      (''microovn'',
       \<lparr>db_path = ''/var/snap/microovn/common/state/database'',
        socket = ''/var/snap/microovn/common/state/control.socket'',
        sql_cmd = Some ''microovn cluster sql'',
        socket_endpoint = ''microovn/core/internal/sql'',
        collection = microovn_hook\<rparr>),
      (''microcloud'',
       \<lparr>db_path = ''/var/snap/microcloud/common/state/database'',
        socket = ''/var/snap/microcloud/common/state/control.socket'',
        sql_cmd = Some ''microcloud sql'',
        socket_endpoint = ''microcloud/core/internal/sql'',
        collection = microcloud_hook\<rparr>),
      (''microk8s'',
       \<lparr>db_path = ''/var/snap/microk8s/current/var/kubernetes/backend'',
        socket = ''/var/snap/microk8s/current/var/kubernetes/backend/'' @ ''kine.sock:12379'',
        sql_cmd = None,
        socket_endpoint = ''microk8s/core/internal/sql'',
        collection = microk8s_hook\<rparr>),
      (''lxd'',
       \<lparr>db_path = ''/var/snap/lxd/common/lxd/database/global'',
        socket = ''/var/snap/lxd/common/lxd/unix.socket'',
        sql_cmd = Some ''lxd sql local'',
        socket_endpoint = ''lxd/internal/sql'',
        collection = lxd_hook\<rparr>)]"

fun call_collection :: "collection \<Rightarrow> filesystem \<Rightarrow> string \<Rightarrow> cfg \<Rightarrow> action list" where
  "call_collection microceph_hook fs pkg cfg = microceph_collection pkg cfg"
| "call_collection microovn_hook fs pkg cfg = microovn_collection pkg cfg"
| "call_collection microcloud_hook fs pkg cfg = microcloud_collection pkg cfg"
| "call_collection microk8s_hook fs pkg cfg = microk8s_collection fs pkg cfg"
| "call_collection lxd_hook fs pkg cfg = lxd_collection pkg cfg"

text \<open>What \<^verbatim>\<open>setup\<close> does for one installed package, and for all of them.\<close>

definition collect_pkg :: "filesystem \<Rightarrow> string \<Rightarrow> cfg \<Rightarrow> action list" where
  "collect_pkg fs pkg config =
     base_collection pkg config @ call_collection (collection config) fs pkg config"

definition setup_dqlite :: "(string \<Rightarrow> bool) \<Rightarrow> filesystem \<Rightarrow> action list" where
  "setup_dqlite is_installed fs =
     concat (map (\<lambda>(pkg, config). if is_installed pkg then collect_pkg fs pkg config else [])
               packages)"

text \<open>The suggested file names and the commands of a list of requests.\<close>

definition filenames :: "action list \<Rightarrow> string list" where
  "filenames as =
     concat (map (\<lambda>a. case a of DirListing p f d \<Rightarrow> [f] | CmdOutput c f d \<Rightarrow> [f] | _ \<Rightarrow> []) as)"

definition cmd_outputs :: "action list \<Rightarrow> action list" where
  "cmd_outputs as = filter (\<lambda>a. case a of CmdOutput c f d \<Rightarrow> True | _ \<Rightarrow> False) as"

text \<open>The addresses the microk8s hook gets out of the topology file: none when the read fails.\<close>

definition nodes_of :: "filesystem \<Rightarrow> cfg \<Rightarrow> string list" where
  "nodes_of fs cfg =
     (case fs (db_path cfg @ ''/cluster.yaml'') of
        Inl e \<Rightarrow> []
      | Inr cluster \<Rightarrow> findall address_rx cluster)"

text \<open>The shape of an address as the pattern captures it, and the queries of the plans, each
  with the label of its table.\<close>

definition digits :: "string \<Rightarrow> bool" where
  "digits a \<longleftrightarrow> a \<noteq> [] \<and> list_all is_digit a"

definition is_address :: "string \<Rightarrow> bool" where
  "is_address n \<longleftrightarrow>
     (\<exists>a b c d p. n = a @ ''.'' @ b @ ''.'' @ c @ ''.'' @ d @ '':'' @ p \<and>
        digits a \<and> digits b \<and> digits c \<and> digits d \<and> digits p)"

definition labelled_queries :: "(string \<times> string) list" where
  "labelled_queries =
     [(q_schema, ''schema''), (q_token_records, ''token_records''),
      (q_cluster_members, ''core_cluster_members''), (q_config, ''config''),
      (q_services, ''services''), (''SELECT * FROM disks;'', ''disks''),
      (''SELECT * FROM client_config;'', ''client_config''),
      (''SELECT * FROM remote;'', ''remote'')]"

section \<open>Running the collected commands\<close>

text \<open>
  Modelled from the spec: the command-execution collaborator and the output sink are the
  framework's and outside the plugin sources.  \<^verbatim>\<open>run(command_string)\<close> gives an exit status and
  the text written; every requested command is run and its result kept under the suggested
  file name and subdirectory, whatever the status of any other command.
\<close>

record collected =
  from_cmd :: string
  exit_status :: int
  stdout_text :: string
  filename :: string
  into_subdir :: string

definition execute :: "(string \<Rightarrow> int \<times> string) \<Rightarrow> action list \<Rightarrow> collected list" where
  "execute run as =
     concat (map (\<lambda>a. case a of
                CmdOutput c f d \<Rightarrow>
                  [\<lparr>from_cmd = c, exit_status = fst (run c), stdout_text = snd (run c),
                    filename = f, into_subdir = d\<rparr>]
              | _ \<Rightarrow> []) as)"

section \<open>Redaction\<close>

text \<open>What a plugin has collected: copies of files and outputs of commands.\<close>

datatype origin = File string | Command string

record artifact =
  origin :: origin
  content :: string

fun split_lines :: "string \<Rightarrow> string list" where
  "split_lines [] = [[]]"
| "split_lines (c # cs) =
     (if c = CHR 0x0A then [] # split_lines cs
      else (case split_lines cs of [] \<Rightarrow> [[c]] | l # ls \<Rightarrow> (c # l) # ls))"

definition join_lines :: "string list \<Rightarrow> string" where
  "join_lines ls = join ''\<newline>'' ls"

text \<open>
  Modelled from the spec: \<^verbatim>\<open>do_file_sub\<close>, \<^verbatim>\<open>do_path_regex_sub\<close> and \<^verbatim>\<open>do_cmd_output_sub\<close> are
  methods of the framework's \<^verbatim>\<open>Plugin\<close> class, which is not among the sources.  Redaction is
  textual: in an artifact the rule selects, every match of the pattern in a line is replaced
  by the expansion of the template, line by line, so that the number and the order of the
  lines stay.  The spec names case-insensitive matching for command output only; for
  files the flag \<open>ic\<close> is a parameter.
\<close>

definition sub_lines :: "bool \<Rightarrow> rx list \<Rightarrow> titem list \<Rightarrow> string \<Rightarrow> string" where
  "sub_lines ic regexp subst text =
     join_lines (map (re_sub ic regexp subst) (split_lines text))"

definition do_file_sub ::
  "bool \<Rightarrow> string \<Rightarrow> rx list \<Rightarrow> titem list \<Rightarrow> artifact list \<Rightarrow> artifact list" where
  "do_file_sub ic srcpath regexp subst arts =
     map (\<lambda>a. if origin a = File srcpath
               then a\<lparr>content := sub_lines ic regexp subst (content a)\<rparr> else a) arts"

definition do_path_regex_sub ::
  "bool \<Rightarrow> rx list \<Rightarrow> rx list \<Rightarrow> titem list \<Rightarrow> artifact list \<Rightarrow> artifact list" where
  "do_path_regex_sub ic pathexp regexp subst arts =
     map (\<lambda>a. case origin a of
                 File p \<Rightarrow>
                   if match_at False pathexp True p \<noteq> None
                   then a\<lparr>content := sub_lines ic regexp subst (content a)\<rparr> else a
               | Command c \<Rightarrow> a) arts"

text \<open>Shell-style matching of a command against a glob with \<^verbatim>\<open>*\<close> and \<^verbatim>\<open>?\<close>.\<close>

fun glob :: "string \<Rightarrow> string \<Rightarrow> bool" where
  "glob [] [] = True"
| "glob [] (x # xs) = False"
| "glob (p # ps) [] = (p = CHR ''*'' \<and> glob ps [])"
| "glob (p # ps) (x # xs) =
     (if p = CHR ''*'' then glob ps (x # xs) \<or> glob (p # ps) xs
      else (p = CHR ''?'' \<or> p = x) \<and> glob ps xs)"

definition do_cmd_output_sub ::
  "string \<Rightarrow> rx list \<Rightarrow> titem list \<Rightarrow> artifact list \<Rightarrow> artifact list" where
  "do_cmd_output_sub globstr regexp subst arts =
     map (\<lambda>a. case origin a of
                 Command c \<Rightarrow>
                   if glob globstr c
                   then a\<lparr>content := sub_lines True regexp subst (content a)\<rparr> else a
               | File p \<Rightarrow> a) arts"

subsection \<open>dqlite: \<^verbatim>\<open>postproc\<close>\<close>

definition protect_keys :: "string list" where
  "protect_keys = [''certificate-authority-data'', ''client-certificate-data'', ''client-key-data'']"

text \<open>The pattern \<^verbatim>\<open>^\s*(#?\s*(k1|k2|k3):\s*)(\S.*)\<close> and the template \<^verbatim>\<open>\1 ******\<close>.\<close>

definition dqlite_regexp :: "rx list" where
  "dqlite_regexp =
     [Bol, Star Space,
      Group 1 [Opt ''#'', Star Space, Group 2 [Alt protect_keys], Lit '':'', Star Space],
      Group 3 [One NonSpace, Star AnyChar]]"

definition dqlite_subst :: "titem list" where
  "dqlite_subst = [Ref 1, Txt '' ******'']"

definition dqlite_postproc :: "bool \<Rightarrow> artifact list \<Rightarrow> artifact list" where
  "dqlite_postproc ic =
     do_file_sub ic ''/var/snap/microk8s/current/credentials/client.config'' dqlite_regexp dqlite_subst"

text \<open>A text that one of the protected keys matches.\<close>

definition key_text :: "bool \<Rightarrow> string \<Rightarrow> bool" where
  "key_text ic K \<longleftrightarrow> list_ex (\<lambda>l. lit_match ic l K) protect_keys"

subsection \<open>docker: \<^verbatim>\<open>postproc\<close>\<close>

text \<open>
  The pattern \<^verbatim>\<open>(?P<var>(pass|key|secret|PASS|KEY|SECRET).*?)=(?P<value>.*?)"\<close>, whose groups
  \<^verbatim>\<open>var\<close> and \<^verbatim>\<open>value\<close> are the groups 1 and 3, and the template \<^verbatim>\<open>\g<var>=********"\<close>.
\<close>

definition env_regexp :: "rx list" where
  "env_regexp =
     [Group 1 [Group 2 [Alt [''pass'', ''key'', ''secret'', ''PASS'', ''KEY'', ''SECRET'']],
               Lazy AnyChar],
      Lit ''='', Group 3 [Lazy AnyChar], Lit [dq]]"

definition env_subst :: "titem list" where
  "env_subst = [Ref 1, Txt (''=********'' @ [dq])]"

definition Docker_postproc :: "artifact list \<Rightarrow> artifact list" where
  "Docker_postproc = do_cmd_output_sub ''*inspect*'' env_regexp env_subst"

subsection \<open>ceph_common: \<^verbatim>\<open>postproc\<close>\<close>

text \<open>
  The pattern \<^verbatim>\<open>(^(rgw keystone admin password)\s*=\s*)(.*)\<close>, the template \<^verbatim>\<open>\1*********\<close>,
  and the path expression \<^verbatim>\<open>/etc/ceph/ceph.conf\<close>, in which the dot is the wildcard.
\<close>

definition ceph_protect_keys :: "string list" where
  "ceph_protect_keys = [''rgw keystone admin password'']"

definition ceph_regex :: "rx list" where
  "ceph_regex =
     [Group 1 [Bol, Group 2 [Alt ceph_protect_keys], Star Space, Lit ''='', Star Space],
      Group 3 [Star AnyChar]]"

definition ceph_subst :: "titem list" where
  "ceph_subst = [Ref 1, Txt ''*********'']"

definition ceph_conf_path :: "rx list" where
  "ceph_conf_path = [Lit ''/etc/ceph/ceph'', One AnyChar, Lit ''conf'']"

definition CephCommon_postproc :: "bool \<Rightarrow> artifact list \<Rightarrow> artifact list" where
  "CephCommon_postproc ic = do_path_regex_sub ic ceph_conf_path ceph_regex ceph_subst"

section \<open>The matcher and what a pattern matches\<close>

lemma lit_prefix_iff:
  "lit_prefix ic l s \<longleftrightarrow> (\<exists>a s'. s = a @ s' \<and> length a = length l \<and> lit_match ic l a)"
proof (induction ic l s rule: lit_prefix.induct)
  case (1 ic s)
  then show ?case by (simp add: lit_match_def)
next
  case (2 ic p ps)
  then show ?case by (simp add: lit_match_def)
next
  case (3 ic p ps x xs)
  show ?case
  proof
    assume "lit_prefix ic (p # ps) (x # xs)"
    then have "chr_eq ic p x" and "lit_prefix ic ps xs" by simp_all
    with 3 obtain a s' where "xs = a @ s'" "length a = length ps" "lit_match ic ps a" by blast
    with \<open>chr_eq ic p x\<close> have "x # xs = (x # a) @ s' \<and> length (x # a) = length (p # ps) \<and> lit_match ic (p # ps) (x # a)"
      by (simp add: lit_match_def)
    then show "\<exists>a s'. x # xs = a @ s' \<and> length a = length (p # ps) \<and> lit_match ic (p # ps) a"
      by blast
  next
    assume "\<exists>a s'. x # xs = a @ s' \<and> length a = length (p # ps) \<and> lit_match ic (p # ps) a"
    then obtain a s' where a: "x # xs = a @ s'" "length a = length (p # ps)" "lit_match ic (p # ps) a"
      by blast
    then obtain y ys where "a = y # ys" by (cases a) auto
    with a have "y = x" "xs = ys @ s'" "length ys = length ps" "chr_eq ic p y" "lit_match ic ps ys"
      by (simp_all add: lit_match_def)
    with 3 show "lit_prefix ic (p # ps) (x # xs)" by auto
  qed
qed

lemma lit_match_length: "lit_match ic l a \<Longrightarrow> length a = length l"
  by (simp add: lit_match_def list_all2_lengthD)

lemma lit_match_Nil: "lit_match ic l a \<Longrightarrow> (a = []) = (l = [])"
  by (cases l; cases a) (simp_all add: lit_match_def)

lemma lit_prefix_append: "lit_match ic l a \<Longrightarrow> lit_prefix ic l (a @ s)"
  using lit_prefix_iff lit_match_length by blast

lemma lit_prefix_take:
  "lit_prefix ic l s \<Longrightarrow> lit_match ic l (take (length l) s)"
  by (auto simp: lit_prefix_iff)

lemma greedy_sound:
  "greedy c k b s g = Some r \<Longrightarrow>
     \<exists>a s'. s = a @ s' \<and> list_all (in_cls c) a \<and> k (b \<and> a = []) s' g = Some r"
proof (induction s arbitrary: b)
  case Nil
  then show ?case by simp
next
  case (Cons x xs)
  show ?case
  proof (cases "in_cls c x \<and> greedy c k False xs g = Some r")
    case True
    with Cons.IH [of False] obtain a s' where "xs = a @ s'" "list_all (in_cls c) a" "k False s' g = Some r"
      by auto
    with True have "x # xs = (x # a) @ s' \<and> list_all (in_cls c) (x # a) \<and> k (b \<and> x # a = []) s' g = Some r"
      by simp
    then show ?thesis by blast
  next
    case False
    with Cons.prems have "k b (x # xs) g = Some r"
      by (auto split: if_splits option.splits)
    then have "x # xs = [] @ (x # xs) \<and> list_all (in_cls c) [] \<and> k (b \<and> [] = []) (x # xs) g = Some r"
      by simp
    then show ?thesis by blast
  qed
qed

lemma greedy_complete:
  "list_all (in_cls c) a \<Longrightarrow> k (b \<and> a = []) s' g \<noteq> None \<Longrightarrow> greedy c k b (a @ s') g \<noteq> None"
proof (induction a arbitrary: b)
  case Nil
  then show ?case by (cases s') (auto split: option.splits)
next
  case (Cons x xs)
  from Cons.prems have "greedy c k False (xs @ s') g \<noteq> None"
    using Cons.IH [of False] by simp
  with Cons.prems show ?case by (auto split: option.splits)
qed

lemma greedy_max:
  "list_all (in_cls c) a \<Longrightarrow> (case s' of [] \<Rightarrow> True | x # xs \<Rightarrow> \<not> in_cls c x) \<Longrightarrow>
   k (b \<and> a = []) s' g \<noteq> None \<Longrightarrow> greedy c k b (a @ s') g = k (b \<and> a = []) s' g"
proof (induction a arbitrary: b)
  case Nil
  then show ?case by (cases s') (auto split: option.splits)
next
  case (Cons x xs)
  then have "greedy c k False (xs @ s') g = k False s' g" "k False s' g \<noteq> None"
    by simp_all
  with Cons.prems show ?case by (auto split: option.splits)
qed

lemma lazy_sound:
  "lazy c k b s g = Some r \<Longrightarrow>
     \<exists>a s'. s = a @ s' \<and> list_all (in_cls c) a \<and> k (b \<and> a = []) s' g = Some r"
proof (induction s arbitrary: b)
  case Nil
  then show ?case by simp
next
  case (Cons x xs)
  show ?case
  proof (cases "k b (x # xs) g")
    case (Some r')
    with Cons.prems have "k b (x # xs) g = Some r" by simp
    then have "x # xs = [] @ (x # xs) \<and> list_all (in_cls c) [] \<and> k (b \<and> [] = []) (x # xs) g = Some r"
      by simp
    then show ?thesis by blast
  next
    case None
    with Cons.prems have x: "in_cls c x" and "lazy c k False xs g = Some r"
      by (auto split: if_splits)
    with Cons.IH [of False] obtain a s' where "xs = a @ s'" "list_all (in_cls c) a" "k False s' g = Some r"
      by auto
    with x have "x # xs = (x # a) @ s' \<and> list_all (in_cls c) (x # a) \<and> k (b \<and> x # a = []) s' g = Some r"
      by simp
    then show ?thesis by blast
  qed
qed

lemma lazy_complete:
  "list_all (in_cls c) a \<Longrightarrow> k (b \<and> a = []) s' g \<noteq> None \<Longrightarrow> lazy c k b (a @ s') g \<noteq> None"
proof (induction a arbitrary: b)
  case Nil
  then show ?case by (cases s') (auto split: option.splits)
next
  case (Cons x xs)
  from Cons.prems have "lazy c k False (xs @ s') g \<noteq> None"
    using Cons.IH [of False] by simp
  with Cons.prems show ?case by (auto split: option.splits)
qed

lemma lit_sound:
  "lit ic l k b s g = Some r \<Longrightarrow>
     \<exists>a s'. s = a @ s' \<and> lit_match ic l a \<and> k (b \<and> a = []) s' g = Some r"
proof -
  assume a: "lit ic l k b s g = Some r"
  then have p: "lit_prefix ic l s" and k: "k (b \<and> l = []) (drop (length l) s) g = Some r"
    by (auto simp: lit_def split: if_splits)
  from p obtain a s' where s: "s = a @ s'" "length a = length l" "lit_match ic l a"
    by (auto simp: lit_prefix_iff)
  with k have "k (b \<and> a = []) s' g = Some r" by (simp add: lit_match_Nil)
  with s show ?thesis by blast
qed

lemma lit_complete:
  "lit_match ic l a \<Longrightarrow> lit ic l k b (a @ s') g = k (b \<and> a = []) s' g"
  by (frule lit_match_length) (simp add: lit_def lit_prefix_append lit_match_Nil)

lemma alts_sound:
  "alts ic ls k b s g = Some r \<Longrightarrow>
     \<exists>a s'. s = a @ s' \<and> list_ex (\<lambda>l. lit_match ic l a) ls \<and> k (b \<and> a = []) s' g = Some r"
proof (induction ls)
  case Nil
  then show ?case by simp
next
  case (Cons l ls)
  show ?case
  proof (cases "lit ic l k b s g")
    case None
    with Cons show ?thesis by auto
  next
    case (Some r')
    with Cons.prems have "lit ic l k b s g = Some r" by simp
    from lit_sound [OF this] show ?thesis by auto
  qed
qed

lemma alts_complete:
  "list_ex (\<lambda>l. lit_match ic l a) ls \<Longrightarrow> k (b \<and> a = []) s' g \<noteq> None \<Longrightarrow>
     alts ic ls k b (a @ s') g \<noteq> None"
  by (induction ls) (auto simp: lit_complete split: option.splits)


lemma rm_sound:
  "rm ic r k b s g = Some res \<Longrightarrow>
     \<exists>a s' g'. s = a @ s' \<and> sem ic r b a g g' \<and> k (b \<and> a = []) s' g' = Some res"
  and rms_sound:
  "rms ic rs k b s g = Some res \<Longrightarrow>
     \<exists>a s' g'. s = a @ s' \<and> sems ic rs b a g g' \<and> k (b \<and> a = []) s' g' = Some res"
proof (induction ic r k b s g and ic rs k b s g rule: rm_rms.induct)
  case (1 ic k b s g)
  then have "s = [] @ s \<and> sem ic Bol b [] g g \<and> k (b \<and> [] = []) s g = Some res"
    by (simp split: if_splits)
  then show ?case by blast
next
  case (2 ic l k b s g)
  then have "lit ic l k b s g = Some res" by simp
  from lit_sound [OF this] show ?case by auto
next
  case (3 ic ls k b s g)
  then have "alts ic ls k b s g = Some res" by simp
  from alts_sound [OF this] show ?case by auto
next
  case (4 ic l k b s g)
  show ?case
  proof (cases "lit ic l k b s g")
    case None
    with 4 have "s = [] @ s \<and> sem ic (Opt l) b [] g g \<and> k (b \<and> [] = []) s g = Some res"
      by simp
    then show ?thesis by blast
  next
    case (Some r')
    with 4 have "lit ic l k b s g = Some res" by simp
    from lit_sound [OF this] show ?thesis by auto
  qed
next
  case (5 ic c k b s g)
  then obtain x xs where "s = x # xs" "in_cls c x" "k False xs g = Some res"
    by (auto split: list.splits if_splits)
  then have "s = [x] @ xs \<and> sem ic (One c) b [x] g g \<and> k (b \<and> [x] = []) xs g = Some res"
    by simp
  then show ?case by blast
next
  case (6 ic c k b s g)
  then have "greedy c k b s g = Some res" by simp
  from greedy_sound [OF this] show ?case by auto
next
  case (7 ic c k b s g)
  then obtain x xs where x: "s = x # xs" "in_cls c x" and "greedy c k False xs g = Some res"
    by (auto split: list.splits if_splits)
  from greedy_sound [OF this(3)] obtain a s' where
    "xs = a @ s'" "list_all (in_cls c) a" "k False s' g = Some res" by auto
  with x have "s = (x # a) @ s' \<and> sem ic (Plus c) b (x # a) g g \<and>
      k (b \<and> x # a = []) s' g = Some res"
    by simp
  then show ?case by blast
next
  case (8 ic c k b s g)
  then have "lazy c k b s g = Some res" by simp
  from lazy_sound [OF this] show ?case by auto
next
  case (9 ic n rs k b s g)
  from 9 obtain a s' g0 where a: "s = a @ s'" "sems ic rs b a g g0"
    "k (b \<and> a = []) s' (g0(n \<mapsto> take (length s - length s') s)) = Some res"
    by auto
  then have "s = a @ s' \<and> sem ic (Group n rs) b a g (g0(n \<mapsto> a)) \<and>
      k (b \<and> a = []) s' (g0(n \<mapsto> a)) = Some res"
    by auto
  then show ?case by blast
next
  case (10 ic k b s g)
  then have "s = [] @ s \<and> sems ic [] b [] g g \<and> k (b \<and> [] = []) s g = Some res"
    by simp
  then show ?case by blast
next
  case (11 ic r rs k b s g)
  from "11.prems" have "rm ic r (\<lambda>b' s' g'. rms ic rs k b' s' g') b s g = Some res"
    by simp
  from "11.IH"(2) [OF this] obtain a1 s1 g1 where 1: "s = a1 @ s1" "sem ic r b a1 g g1"
    "rms ic rs k (b \<and> a1 = []) s1 g1 = Some res"
    by auto
  from "11.IH"(1) [OF this(3)] obtain a2 s2 g2 where 2: "s1 = a2 @ s2"
    "sems ic rs (b \<and> a1 = []) a2 g1 g2" "k ((b \<and> a1 = []) \<and> a2 = []) s2 g2 = Some res"
    by auto
  from 1 2 have "s = (a1 @ a2) @ s2 \<and> sems ic (r # rs) b (a1 @ a2) g g2 \<and>
      k (b \<and> a1 @ a2 = []) s2 g2 = Some res"
    by auto
  then show ?case by blast
qed

lemma rm_complete:
  "s = a @ s' \<Longrightarrow> sem ic r b a g g' \<Longrightarrow> k (b \<and> a = []) s' g' \<noteq> None \<Longrightarrow>
     rm ic r k b s g \<noteq> None"
  and rms_complete:
  "s = a @ s' \<Longrightarrow> sems ic rs b a g g' \<Longrightarrow> k (b \<and> a = []) s' g' \<noteq> None \<Longrightarrow>
     rms ic rs k b s g \<noteq> None"
proof (induction ic r k b s g and ic rs k b s g arbitrary: a s' g' and a s' g' rule: rm_rms.induct)
  case (1 ic k b s g)
  then show ?case by simp
next
  case (2 ic l k b s g)
  then show ?case by (simp add: lit_complete)
next
  case (3 ic ls k b s g)
  then show ?case by (simp add: alts_complete)
next
  case (4 ic l k b s g)
  then show ?case by (auto simp: lit_complete split: option.splits)
next
  case (5 ic c k b s g)
  then show ?case by (cases a) auto
next
  case (6 ic c k b s g)
  then show ?case by (simp add: greedy_complete)
next
  case (7 ic c k b s g)
  then obtain x xs where "a = x # xs" by (cases a) auto
  with 7 show ?case using greedy_complete [of c xs k False s' g] by simp
next
  case (8 ic c k b s g)
  then show ?case by (simp add: lazy_complete)
next
  case (9 ic n rs k b s g)
  from "9.prems"(2) obtain g0 where g0: "sems ic rs b a g g0" "g' = g0(n \<mapsto> a)" by auto
  have t: "take (length s - length s') s = a"
    using "9.prems"(1) by simp
  have "rms ic rs (\<lambda>b' s' g'. k b' s' (g'(n \<mapsto> take (length s - length s') s))) b s g \<noteq> None"
  proof (rule "9.IH" [OF "9.prems"(1) g0(1)])
    show "k (b \<and> a = []) s' (g0(n \<mapsto> take (length s - length s') s)) \<noteq> None"
      unfolding t g0(2) [symmetric] by (rule "9.prems"(3))
  qed
  then show ?case by simp
next
  case (10 ic k b s g)
  then show ?case by simp
next
  case (11 ic r rs k b s g)
  from "11.prems"(2) obtain a1 a2 g1 where a: "a = a1 @ a2" "sem ic r b a1 g g1"
    "sems ic rs (b \<and> a1 = []) a2 g1 g'" by auto
  have "rms ic rs k (b \<and> a1 = []) (a2 @ s') g1 \<noteq> None"
  proof (rule "11.IH"(1) [OF refl a(3)])
    show "k ((b \<and> a1 = []) \<and> a2 = []) s' g' \<noteq> None"
      using "11.prems"(3) a(1) by simp
  qed
  then have "rm ic r (\<lambda>b' s' g'. rms ic rs k b' s' g') b s g \<noteq> None"
    using "11.IH"(2) [of a1 "a2 @ s'" g1] "11.prems"(1) a(1,2) by simp
  then show ?case by simp
qed

lemma match_at_sound:
  "match_at ic rs b s = Some (g, rest) \<Longrightarrow> \<exists>a. s = a @ rest \<and> sems ic rs b a Map.empty g"
  unfolding match_at_def by (drule rms_sound) auto

lemma match_at_complete:
  "sems ic rs b a Map.empty g \<Longrightarrow> match_at ic rs b (a @ rest) \<noteq> None"
  unfolding match_at_def by (rule rms_complete [where a = a and s' = rest and g' = g]) auto

lemma scan_hits:
  "Hit g \<in> set (scan ic rs b s) \<Longrightarrow> \<exists>b' s' rest. match_at ic rs b' s' = Some (g, rest)"
proof (induction ic rs b s rule: scan.induct)
  case (1 ic rs b)
  show ?case
  proof (cases "match_at ic rs b []")
    case None
    with 1 show ?thesis by simp
  next
    case (Some r)
    with 1 have "match_at ic rs b [] = Some (g, snd r)" by (cases r) simp
    then show ?thesis by blast
  qed
next
  case (2 ic rs b x xs)
  show ?case
  proof (cases "match_at ic rs b (x # xs)")
    case None
    with 2 show ?thesis by auto
  next
    case (Some r)
    obtain g0 s0 where r: "r = (g0, s0)" by (cases r)
    show ?thesis
    proof (cases "g = g0")
      case True
      with Some r show ?thesis by blast
    next
      case False
      with 2 Some r show ?thesis by (auto split: if_splits)
    qed
  qed
qed

lemma chr_eq_cs: "chr_eq False = (=)"
  by (intro ext) (simp add: chr_eq_def)

lemma lit_match_cs [simp]: "lit_match False l a \<longleftrightarrow> a = l"
  by (auto simp: lit_match_def chr_eq_cs list_all2_eq [symmetric])

lemma in_cls_eqs:
  "in_cls Space = is_space" "in_cls Digit = is_digit"
  "in_cls NonSpace = (\<lambda>c. \<not> is_space c)" "in_cls AnyChar = (\<lambda>c. c \<noteq> CHR 0x0A)"
  by (intro ext, simp)+

lemma is_addressI:
  "digits a \<Longrightarrow> digits b \<Longrightarrow> digits c \<Longrightarrow> digits d \<Longrightarrow> digits p \<Longrightarrow>
     is_address (a @ CHR ''.'' # b @ CHR ''.'' # c @ CHR ''.'' # d @ CHR '':'' # p)"
  unfolding is_address_def by (intro exI [of _ a] exI [of _ b] exI [of _ c] exI [of _ d] exI [of _ p]) simp

lemma address_sems:
  "sems False address_rx b a Map.empty g \<Longrightarrow> is_address (grp g 1)"
  by (clarsimp simp: address_rx_def grp_def in_cls_eqs) (rule is_addressI; simp add: digits_def)

lemma findall_address:
  "n \<in> set (findall address_rx s) \<Longrightarrow> is_address n"
proof -
  assume "n \<in> set (findall address_rx s)"
  then obtain g where "Hit g \<in> set (scan False address_rx True s)" "n = grp g 1"
    by (auto simp: findall_def split: piece.splits)
  with scan_hits obtain b' s' rest where "match_at False address_rx b' s' = Some (g, rest)"
    by blast
  from match_at_sound [OF this] \<open>n = grp g 1\<close> show ?thesis
    using address_sems by blast
qed

lemma chr_eq_refl [simp]: "chr_eq ic c c"
  by (simp add: chr_eq_def)

lemma lit_match_refl [simp]: "lit_match ic l l"
  by (simp add: lit_match_def list_all2_refl)

lemma greedy_max':
  "list_all (in_cls c) a \<Longrightarrow> stops c s' \<Longrightarrow> k (b \<and> a = []) s' g = Some res \<Longrightarrow>
     greedy c k b (a @ s') g = Some res"
  using greedy_max [of c a s' k b g] by (simp add: stops_def)

lemma alts_pick:
  "pick_alt ic ls a s' \<Longrightarrow> k (b \<and> a = []) s' g = Some res \<Longrightarrow>
     alts ic ls k b (a @ s') g = Some res"
proof (induction ls)
  case Nil
  then show ?case by simp
next
  case (Cons l ls)
  show ?case
  proof (cases "lit_match ic l a")
    case True
    with Cons.prems show ?thesis by (simp add: lit_complete)
  next
    case False
    with Cons.prems have "\<not> lit_prefix ic l (a @ s')" "pick_alt ic ls a s'" by auto
    with Cons show ?thesis by (simp add: lit_def)
  qed
qed

lemma rm_pick:
  "s = a @ s' \<Longrightarrow> pick ic r b a s' g g' \<Longrightarrow> k (b \<and> a = []) s' g' = Some res \<Longrightarrow>
     rm ic r k b s g = Some res"
  and rms_pick:
  "s = a @ s' \<Longrightarrow> picks ic rs b a s' g g' \<Longrightarrow> k (b \<and> a = []) s' g' = Some res \<Longrightarrow>
     rms ic rs k b s g = Some res"
proof (induction ic r k b s g and ic rs k b s g arbitrary: a s' g' and a s' g' rule: rm_rms.induct)
  case (1 ic k b s g)
  then show ?case by simp
next
  case (2 ic l k b s g)
  then show ?case by (simp add: lit_complete)
next
  case (3 ic ls k b s g)
  then show ?case by (simp add: alts_pick)
next
  case (4 ic l k b s g)
  show ?case
  proof (cases "lit_match ic l a")
    case True
    then have "lit ic l k b (a @ s') g = k (b \<and> a = []) s' g"
      by (rule lit_complete)
    with 4 show ?thesis by simp
  next
    case False
    with 4 have "a = []" "\<not> lit_prefix ic l s'" by auto
    with 4 show ?thesis by (simp add: lit_def)
  qed
next
  case (5 ic c k b s g)
  then show ?case by (cases a) auto
next
  case (6 ic c k b s g)
  then show ?case by (simp add: greedy_max')
next
  case (7 ic c k b s g)
  then obtain x xs where "a = x # xs" by (cases a) auto
  with 7 show ?case using greedy_max' [of c xs s' k False g res] by simp
next
  case (8 ic c k b s g)
  then show ?case by (cases s') auto
next
  case (9 ic n rs k b s g)
  from "9.prems"(2) obtain g0 where g0: "picks ic rs b a s' g g0" "g' = g0(n \<mapsto> a)" by auto
  have t: "take (length s - length s') s = a"
    using "9.prems"(1) by simp
  have "rms ic rs (\<lambda>b' s' g'. k b' s' (g'(n \<mapsto> take (length s - length s') s))) b s g = Some res"
  proof (rule "9.IH" [OF "9.prems"(1) g0(1)])
    show "k (b \<and> a = []) s' (g0(n \<mapsto> take (length s - length s') s)) = Some res"
      unfolding t g0(2) [symmetric] by (rule "9.prems"(3))
  qed
  then show ?case by simp
next
  case (10 ic k b s g)
  then show ?case by simp
next
  case (11 ic r rs k b s g)
  from "11.prems"(2) obtain a1 a2 g1 where a: "a = a1 @ a2" "pick ic r b a1 (a2 @ s') g g1"
    "picks ic rs (b \<and> a1 = []) a2 s' g1 g'" by auto
  have "rms ic rs k (b \<and> a1 = []) (a2 @ s') g1 = Some res"
  proof (rule "11.IH"(1) [OF refl a(3)])
    show "k ((b \<and> a1 = []) \<and> a2 = []) s' g' = Some res"
      using "11.prems"(3) a(1) by simp
  qed
  then have "rm ic r (\<lambda>b' s' g'. rms ic rs k b' s' g') b s g = Some res"
    using "11.IH"(2) [of a1 "a2 @ s'" g1] "11.prems"(1) a(1,2) by simp
  then show ?case by simp
qed

lemma match_at_pick:
  "picks ic rs b a s' Map.empty g \<Longrightarrow> match_at ic rs b (a @ s') = Some (g, s')"
  unfolding match_at_def by (rule rms_pick [where a = a and s' = s' and g' = g]) auto


lemma picks_ConsI:
  "pick ic r b a1 (a2 @ s') g g1 \<Longrightarrow> picks ic rs (b \<and> a1 = []) a2 s' g1 g' \<Longrightarrow>
     a = a1 @ a2 \<Longrightarrow> picks ic (r # rs) b a s' g g'"
  by auto

lemma pick_GroupI:
  "picks ic rs b a s' g g0 \<Longrightarrow> g' = g0(n \<mapsto> a) \<Longrightarrow> pick ic (Group n rs) b a s' g g'"
  by auto

lemma picks_single:
  "picks ic [r] b a s' g g' = pick ic r b a s' g g'"
  by simp

lemma ceph_picks:
  assumes "list_all is_space s1" "list_all is_space s2"
    and "stops Space v" and "list_all (\<lambda>c. c \<noteq> CHR 0x0A) v"
  shows "picks ic ceph_regex True (''rgw keystone admin password'' @ s1 @ ''='' @ s2 @ v) []
           Map.empty
           [2 \<mapsto> ''rgw keystone admin password'',
            1 \<mapsto> ''rgw keystone admin password'' @ s1 @ ''='' @ s2, 3 \<mapsto> v]"
proof -
  define key where "key = ''rgw keystone admin password''"
  have key: "key \<noteq> []" by (simp add: key_def)
  have eq: "s1 @ CHR ''='' # s2 @ v = s1 @ ''='' @ s2 @ v" by simp
  have "picks ic [Bol, Group 2 [Alt ceph_protect_keys], Star Space, Lit ''='', Star Space] True
          (key @ s1 @ ''='' @ s2) v Map.empty [2 \<mapsto> key]"
  proof (rule picks_ConsI [where ?a1.0 = "[]"])
    show "pick ic Bol True [] ((key @ s1 @ ''='' @ s2) @ v) Map.empty Map.empty" by simp
    show "key @ s1 @ ''='' @ s2 = [] @ key @ s1 @ ''='' @ s2" by simp
    show "picks ic [Group 2 [Alt ceph_protect_keys], Star Space, Lit ''='', Star Space]
            (True \<and> [] = []) (key @ s1 @ ''='' @ s2) v Map.empty [2 \<mapsto> key]"
    proof (rule picks_ConsI [where ?a1.0 = key and ?a2.0 = "s1 @ ''='' @ s2"])
      show "pick ic (Group 2 [Alt ceph_protect_keys]) (True \<and> [] = []) key
              ((s1 @ ''='' @ s2) @ v) Map.empty [2 \<mapsto> key]"
        by (simp add: ceph_protect_keys_def key_def)
      show "picks ic [Star Space, Lit ''='', Star Space] ((True \<and> [] = []) \<and> key = [])
              (s1 @ ''='' @ s2) v [2 \<mapsto> key] [2 \<mapsto> key]"
      proof (rule picks_ConsI [where ?a1.0 = s1 and ?a2.0 = "''='' @ s2"])
        show "pick ic (Star Space) ((True \<and> [] = []) \<and> key = []) s1 ((''='' @ s2) @ v)
                [2 \<mapsto> key] [2 \<mapsto> key]"
          using assms(1) by (simp add: stops_def in_cls_eqs is_space_def)
        show "picks ic [Lit ''='', Star Space] (((True \<and> [] = []) \<and> key = []) \<and> s1 = [])
                (''='' @ s2) v [2 \<mapsto> key] [2 \<mapsto> key]"
        proof (rule picks_ConsI [where ?a1.0 = "''=''" and ?a2.0 = s2])
          show "pick ic (Lit ''='') (((True \<and> [] = []) \<and> key = []) \<and> s1 = []) ''='' (s2 @ v)
                  [2 \<mapsto> key] [2 \<mapsto> key]"
            by simp
          show "picks ic [Star Space] ((((True \<and> [] = []) \<and> key = []) \<and> s1 = []) \<and> ''='' = [])
                  s2 v [2 \<mapsto> key] [2 \<mapsto> key]"
            using assms(2,3) by (simp add: in_cls_eqs)
        qed simp
      qed simp
    qed simp
  qed
  then have "pick ic (Group 1 [Bol, Group 2 [Alt ceph_protect_keys], Star Space, Lit ''='', Star Space])
      True (key @ s1 @ ''='' @ s2) (v @ []) Map.empty [2 \<mapsto> key, 1 \<mapsto> key @ s1 @ ''='' @ s2]"
    by (simp only: append_Nil2) (rule pick_GroupI, assumption, simp)
  moreover have "picks ic [Group 3 [Star AnyChar]] (True \<and> key @ s1 @ ''='' @ s2 = []) v []
      [2 \<mapsto> key, 1 \<mapsto> key @ s1 @ ''='' @ s2] [2 \<mapsto> key, 1 \<mapsto> key @ s1 @ ''='' @ s2, 3 \<mapsto> v]"
    using assms(4) by (simp add: stops_def in_cls_eqs)
  ultimately have "picks ic ceph_regex True ((key @ s1 @ ''='' @ s2) @ v) [] Map.empty
      [2 \<mapsto> key, 1 \<mapsto> key @ s1 @ ''='' @ s2, 3 \<mapsto> v]"
    unfolding ceph_regex_def by (rule picks_ConsI) simp
  then show ?thesis by (simp add: key_def)
qed

lemma gaps_after_bol:
  "(\<And>s. match_at ic rs False s = None) \<Longrightarrow> scan ic rs False s = map Gap s"
  by (induction s) simp_all

lemma re_sub_Nil_None: "match_at ic rs True [] = None \<Longrightarrow> re_sub ic rs tmpl [] = []"
  by (simp add: re_sub_def)

lemma re_sub_no_match:
  assumes "\<And>s. match_at ic rs False s = None" and "match_at ic rs True l = None"
  shows "re_sub ic rs tmpl l = l"
proof (cases l)
  case Nil
  with assms(2) show ?thesis by (simp add: re_sub_def)
next
  case (Cons x xs)
  with assms(2) have "scan ic rs True l = Gap x # map Gap xs"
    by (simp add: gaps_after_bol [OF assms(1)])
  with Cons show ?thesis by (simp add: re_sub_def comp_def)
qed

lemma re_sub_match:
  assumes "\<And>s. match_at ic rs False s = None" and "match_at ic rs True l = Some (g, rest)"
    and "length rest < length l"
  shows "re_sub ic rs tmpl l = expand tmpl g @ rest"
proof -
  from assms(3) obtain x xs where l: "l = x # xs" by (cases l) auto
  with assms(2,3) have "scan ic rs True l = Hit g # map Gap rest"
    by (simp add: gaps_after_bol [OF assms(1)])
  then show ?thesis by (simp add: re_sub_def comp_def)
qed

lemma split_lines_no_newline: "CHR 0x0A \<notin> set l \<Longrightarrow> split_lines l = [l]"
  by (induction l) auto

lemma split_lines_append:
  "CHR 0x0A \<notin> set l \<Longrightarrow> split_lines (l @ CHR 0x0A # rest) = l # split_lines rest"
  by (induction l) auto

lemma split_join:
  "ls \<noteq> [] \<Longrightarrow> list_all (\<lambda>l. CHR 0x0A \<notin> set l) ls \<Longrightarrow> split_lines (join_lines ls) = ls"
  unfolding join_lines_def
  by (induction "''\<newline>''" ls rule: join.induct)
     (simp_all add: split_lines_no_newline split_lines_append)

lemma join_Cons_Cons: "join sep ((a # l) # ls) = a # join sep (l # ls)"
  by (cases ls) simp_all

lemma join_split: "join_lines (split_lines s) = s"
  unfolding join_lines_def
  by (induction s) (auto simp: join_Cons_Cons split: list.splits)

lemma sub_lines_join:
  "ls \<noteq> [] \<Longrightarrow> list_all (\<lambda>l. CHR 0x0A \<notin> set l) ls \<Longrightarrow>
     sub_lines ic rs tmpl (join_lines ls) = join_lines (map (re_sub ic rs tmpl) ls)"
  by (simp add: sub_lines_def split_join)

lemma prefix_left:
  assumes "prefix w (a @ t)" "set t \<inter> set w = {}"
  shows "prefix w a"
proof -
  from assms(1) consider "prefix w a" | us where "w = a @ us" "prefix us t"
    by (auto simp: prefix_append)
  then show ?thesis
  proof cases
    case 1
    then show ?thesis .
  next
    case 2
    have "us = []"
    proof (rule ccontr)
      assume "us \<noteq> []"
      then obtain u us' where "us = u # us'" by (cases us) auto
      with 2 have "u \<in> set w" "u \<in> set t" by (auto simp: prefix_def)
      with assms(2) show False by auto
    qed
    with 2 show ?thesis by simp
  qed
qed

lemma sublist_left:
  assumes "sublist w (a @ t)" "set t \<inter> set w = {}" "w \<noteq> []"
  shows "sublist w a"
  using assms(1)
proof (induction a)
  case Nil
  then have "set w \<subseteq> set t" by (simp add: set_mono_sublist)
  with assms(2,3) show ?case by (cases w) auto
next
  case (Cons x a)
  from Cons.prems have "prefix w ((x # a) @ t) \<or> sublist w (a @ t)"
    by (simp add: sublist_Cons_right)
  then show ?case
  proof
    assume "prefix w ((x # a) @ t)"
    then have "prefix w (x # a)" using assms(2) by (rule prefix_left)
    then show ?thesis by (rule prefix_imp_sublist)
  next
    assume "sublist w (a @ t)"
    then have "sublist w a" by (rule Cons.IH)
    then show ?thesis by (simp add: sublist_Cons_right)
  qed
qed

lemma lower_range: "lower c = c \<or> lower c \<in> set lower_case"
proof (cases "map_of (zip upper_case lower_case) c")
  case None
  then show ?thesis by (simp add: lower_def)
next
  case (Some l)
  then have "(c, l) \<in> set (zip upper_case lower_case)" by (rule map_of_SomeD)
  then have "l \<in> set lower_case" by (rule set_zip_rightD)
  with Some show ?thesis by (simp add: lower_def)
qed

lemma lower_other: "c \<notin> set upper_case \<Longrightarrow> lower c = c"
proof -
  assume "c \<notin> set upper_case"
  then have "map_of (zip upper_case lower_case) c = None"
    by (auto simp: map_of_eq_None_iff dest: set_zip_leftD)
  then show ?thesis by (simp add: lower_def)
qed

lemma space_not_upper: "is_space c \<Longrightarrow> c \<notin> set upper_case"
  unfolding is_space_def upper_case_def by auto

lemma space_not_lower: "is_space c \<Longrightarrow> c \<notin> set lower_case"
  unfolding is_space_def lower_case_def by auto

lemma chr_eq_plain:
  "p \<notin> set lower_case \<Longrightarrow> p \<notin> set upper_case \<Longrightarrow> chr_eq ic p c \<longleftrightarrow> c = p"
  using lower_range [of c] lower_other [of p] by (auto simp: chr_eq_def)

lemma chr_eq_letter_not_space:
  "p \<in> set lower_case \<Longrightarrow> chr_eq ic p c \<Longrightarrow> \<not> is_space c"
proof
  assume p: "p \<in> set lower_case" and e: "chr_eq ic p c" and s: "is_space c"
  from p have "p \<notin> set upper_case" by (auto simp: lower_case_def upper_case_def)
  then have "lower p = p" by (rule lower_other)
  moreover from s have "lower c = c" by (intro lower_other space_not_upper)
  ultimately have "p = c" using e by (cases ic) (simp_all add: chr_eq_def)
  with p s space_not_lower show False by blast
qed

lemma lit_match_colon [simp]: "lit_match ic '':'' a \<longleftrightarrow> a = '':''"
  by (cases a) (auto simp: lit_match_def chr_eq_plain lower_case_def upper_case_def list_all2_Cons1)

lemma lit_match_hash [simp]: "lit_match ic ''#'' a \<longleftrightarrow> a = ''#''"
  by (cases a) (auto simp: lit_match_def chr_eq_plain lower_case_def upper_case_def list_all2_Cons1)

lemma takeWhile_spaces:
  "list_all is_space w \<Longrightarrow> \<not> is_space x \<Longrightarrow> takeWhile is_space (w @ x # r) = w"
  by (induction w) auto

lemma sems_ConsI:
  "sem ic r b a1 g g1 \<Longrightarrow> sems ic rs (b \<and> a1 = []) a2 g1 g' \<Longrightarrow> a = a1 @ a2 \<Longrightarrow>
     sems ic (r # rs) b a g g'"
  by auto

lemma sem_GroupI:
  "sems ic rs b a g g0 \<Longrightarrow> g' = g0(n \<mapsto> a) \<Longrightarrow> sem ic (Group n rs) b a g g'"
  by auto

lemma split_lines_nonempty: "split_lines t \<noteq> []"
  by (induction t) (auto split: list.splits)

lemma split_lines_newline_free: "list_all (\<lambda>l. CHR 0x0A \<notin> set l) (split_lines t)"
  by (induction t) (auto split: list.splits)

lemma join_lines_inj:
  assumes "xs \<noteq> []" "ys \<noteq> []" "list_all (\<lambda>l. CHR 0x0A \<notin> set l) xs"
    "list_all (\<lambda>l. CHR 0x0A \<notin> set l) ys" "join_lines xs = join_lines ys"
  shows "xs = ys"
proof -
  have "xs = split_lines (join_lines xs)" using assms(1,3) by (simp add: split_join)
  also have "\<dots> = split_lines (join_lines ys)" using assms(5) by simp
  also have "\<dots> = ys" using assms(2,4) by (simp add: split_join)
  finally show ?thesis .
qed

section \<open>Reading back what \<^verbatim>\<open>json.dumps\<close> writes\<close>

lemma hex_table: "list_all (\<lambda>k. hex_val (hex_digit k) = Some k) [0..<16]"
  by code_simp

lemma hex_val_hex_digit: "hex_val (hex_digit n) = Some (n mod 16)"
proof -
  have "n mod 16 \<in> set [0..<16]" by simp
  with hex_table have "hex_val (hex_digit (n mod 16)) = Some (n mod 16)"
    unfolding list_all_iff by blast
  then show ?thesis by (simp add: hex_digit_def)
qed


lemma hex_val_0: "hex_val (CHR ''0'') = Some 0"
  by (simp add: hex_val_def)

lemma unescape_simps:
  "unescape dq = Some dq" "unescape bslash = Some bslash"
  "unescape (CHR ''b'') = Some (CHR 0x08)" "unescape (CHR ''f'') = Some (CHR 0x0C)"
  "unescape (CHR ''n'') = Some (CHR 0x0A)" "unescape (CHR ''r'') = Some (CHR 0x0D)"
  "unescape (CHR ''t'') = Some (CHR 0x09)"
  by (simp_all add: unescape_def dq_def bslash_def)

lemma char_code: "(of_char c :: nat) div 16 mod 16 * 16 + of_char c mod 16 = of_char c"
proof -
  have "(of_char c :: nat) < 256" by simp
  then have "(of_char c :: nat) div 16 < 16" by arith
  then show ?thesis by simp
qed

lemma json_chars_escape: "json_chars (json_escape c @ t) = push c (json_chars t)"
proof -
  have u: "bslash \<noteq> dq" "CHR ''u'' \<noteq> dq" "bslash \<noteq> CHR ''u''" "dq \<noteq> CHR ''u''"
    by (simp_all add: dq_def bslash_def)
  consider (short) "c \<in> set [bslash, dq, CHR 0x08, CHR 0x0C, CHR 0x0A, CHR 0x0D, CHR 0x09]"
    | (plain) "c \<notin> set [bslash, dq, CHR 0x08, CHR 0x0C, CHR 0x0A, CHR 0x0D, CHR 0x09]"
        "32 \<le> (of_char c :: nat) \<and> (of_char c :: nat) \<le> 126"
    | (hex) "c \<notin> set [bslash, dq, CHR 0x08, CHR 0x0C, CHR 0x0A, CHR 0x0D, CHR 0x09]"
        "\<not> (32 \<le> (of_char c :: nat) \<and> (of_char c :: nat) \<le> 126)"
    by blast
  then show ?thesis
  proof cases
    case short
    then show ?thesis
      by (auto simp: json_escape_def unescape_simps u)
  next
    case plain
    then show ?thesis by (simp add: json_escape_def)
  next
    case hex
    have "((0 * 16 + 0) * 16 + (of_char c :: nat) div 16 mod 16) * 16 + of_char c mod 16 = of_char c"
      using char_code [of c] by simp
    with hex show ?thesis
      by (simp add: json_escape_def u hex_val_0 hex_val_hex_digit)
  qed
qed

lemma json_chars_dumps:
  "json_chars (concat (map json_escape s) @ dq # rest) = Some (s, rest)"
  by (induction s) (simp_all add: json_chars_escape push_def)


lemma skip_ws_simps:
  "skip_ws [] = []" "skip_ws (CHR '' '' # s) = skip_ws s"
  "skip_ws (json_dumps_str x @ s) = json_dumps_str x @ s"
  "skip_ws (CHR '':'' # s) = CHR '':'' # s" "skip_ws (CHR '','' # s) = CHR '','' # s"
  "skip_ws (CHR ''{'' # s) = CHR ''{'' # s" "skip_ws (CHR ''}'' # s) = CHR ''}'' # s"
  by (simp_all add: skip_ws_def json_dumps_str_def dq_def)

lemma json_string_dumps: "json_string (json_dumps_str x @ rest) = Some (x, rest)"
  by (simp add: json_string_def skip_ws_simps(3)) (simp add: json_dumps_str_def json_chars_dumps)

lemma json_string_space: "json_string (CHR '' '' # s) = json_string s"
  by (simp add: json_string_def skip_ws_simps)

lemma expect_simps:
  "expect (CHR '':'') (CHR '':'' # s) = Some s"
  "expect (CHR ''{'') (CHR ''{'' # s) = Some s"
  "expect (CHR ''}'') (json_dumps_str x @ s) = None"
  by (simp_all add: expect_def skip_ws_simps) (simp add: json_dumps_str_def dq_def)

lemma length_dumps: "length (json_dumps_str x) = Suc (Suc (length (concat (map json_escape x))))"
  by (simp add: json_dumps_str_def)

lemma json_loads_one:
  "json_loads (json_dumps_dict [(k, v)]) = Some [(k, v)]"
  by (simp add: json_loads_def json_dumps_dict_def expect_simps json_string_dumps
      json_string_space skip_ws_simps length_dumps)

lemma json_loads_two:
  "json_loads (json_dumps_dict [(k, v), (k', v')]) = Some [(k, v), (k', v')]"
  by (simp add: json_loads_def json_dumps_dict_def expect_simps json_string_dumps
      json_string_space skip_ws_simps length_dumps)

section \<open>Properties of the plan\<close>





text \<open>
  C3: the first request of every step of a batch is the socket command, whose payload is
  the JSON text between the single quotes.  Read back, that text is an object with the one
  member \<^verbatim>\<open>query\<close>, holding the query text, for every package but lxd, and for lxd with the
  two members \<^verbatim>\<open>query\<close> and \<^verbatim>\<open>database\<close>, the second holding \<^verbatim>\<open>local\<close>; it has no other member,
  whatever characters the query text holds.
\<close>

theorem C3_payload:
  "socket_cmd pkg cfg query =
     curl_cmd (socket cfg) (socket_endpoint cfg) @ '' '' @ [sq] @
     json_dumps_dict (query_payload pkg query) @ [sq] \<and>
   hd (batch_step pkg cfg (query, table)) =
     CmdOutput (socket_cmd pkg cfg query) (pkg @ ''_dqlite_'' @ table) pkg \<and>
   json_loads (json_dumps_dict (query_payload pkg query)) =
     Some (if pkg = ''lxd'' then [(''query'', query), (''database'', ''local'')]
           else [(''query'', query)])"
  by (simp add: socket_cmd_def batch_step_def query_payload_def json_loads_one json_loads_two)

lemma schema_payload_text:
  \<open>json_dumps_dict (query_payload ''lxd'' q_schema) =
     ''{"query": "SELECT * FROM sqlite_master WHERE type='' @ [bslash, dq] @ ''table'' @
     [bslash, dq] @ '';", "database": "local"}''\<close>
  by (simp add: json_dumps_dict_def query_payload_def q_schema_def json_dumps_str_def
      json_escape_def dq_def bslash_def)

theorem C3_payload_witness:
  \<open>json_loads (''{"query": "SELECT * FROM sqlite_master WHERE type='' @ [bslash, dq] @ ''table'' @
     [bslash, dq] @ '';", "database": "local"}'') =
     Some [(''query'', ''SELECT * FROM sqlite_master WHERE type="table";''),
           (''database'', ''local'')]\<close>
  using C3_payload [of "''lxd''" _ q_schema]
  by (simp add: schema_payload_text) (simp add: q_schema_def)


lemma packages_cases:
  assumes "(pkg, config) \<in> set packages"
  obtains "pkg = ''microceph''" "sql_cmd config = Some ''microceph cluster sql''"
      "collection config = microceph_hook"
    | "pkg = ''microovn''" "sql_cmd config = Some ''microovn cluster sql''"
      "collection config = microovn_hook"
    | "pkg = ''microcloud''" "sql_cmd config = Some ''microcloud sql''"
      "collection config = microcloud_hook"
    | "pkg = ''microk8s''" "sql_cmd config = None" "collection config = microk8s_hook"
    | "pkg = ''lxd''" "sql_cmd config = Some ''lxd sql local''" "collection config = lxd_hook"
  using assms that by (auto simp: packages_def)

section \<open>File names of one backend's run\<close>

lemma filenames_simps:
  "filenames [] = []"
  "filenames (DirListing p f d # xs) = f # filenames xs"
  "filenames (CopySpec ps # xs) = filenames xs"
  "filenames (CmdOutput c f d # xs) = f # filenames xs"
  "filenames (Alert m # xs) = filenames xs"
  "filenames (xs @ ys) = filenames xs @ filenames ys"
  by (simp_all add: filenames_def)

lemma filenames_cmds:
  "length qs = length ns \<Longrightarrow>
     filenames (map (\<lambda>(q, n). CmdOutput (c q) n d) (zip qs ns)) = ns"
  by (induction qs ns rule: list_induct2) (simp_all add: filenames_simps)

lemma microk8s_filenames:
  "filenames (microk8s_collection fs pkg cfg) =
     map (\<lambda>query. pkg @ ''_dqlite_'' @ query) fixed_queries
     @ map (\<lambda>node. pkg @ ''_dqlite_.describe_'' @ node) (nodes_of fs cfg)"
proof (cases "fs (db_path cfg @ ''/cluster.yaml'')")
  case (Inl e)
  then show ?thesis
    by (simp add: microk8s_collection_def nodes_of_def filenames_cmds filenames_simps)
next
  case (Inr cluster)
  then show ?thesis
    by (simp add: microk8s_collection_def nodes_of_def filenames_cmds Let_def filenames_simps)
qed

lemma microk8s_distinct:
  "distinct (filenames (collect_pkg fs ''microk8s'' cfg)) \<longleftrightarrow> distinct (nodes_of fs cfg)"
  if "collection cfg = microk8s_hook"
proof -
  define f where "f = (\<lambda>node. ''microk8s_dqlite_.describe_'' @ node)"
  define fixed where
    "fixed = ''ls_microk8s_dqlite_dir'' # map (\<lambda>query. ''microk8s_dqlite_'' @ query) fixed_queries"
  have inj: "inj_on f A" for A
    by (rule inj_onI) (simp add: f_def)
  have eq: "filenames (collect_pkg fs ''microk8s'' cfg) = fixed @ map f (nodes_of fs cfg)"
    using that
    by (simp add: collect_pkg_def base_collection_def filenames_simps microk8s_filenames
        f_def fixed_def)
  have "distinct fixed"
    by (simp add: fixed_def fixed_queries_def)
  moreover have "set fixed \<inter> f ` A = {}" for A
    by (auto simp: fixed_def fixed_queries_def f_def dq_def)
  ultimately show ?thesis
    by (simp add: eq distinct_map inj)
qed

lemmas plan_defs = collect_pkg_def base_collection_def microceph_collection_def
  microovn_collection_def microcloud_collection_def lxd_collection_def
  run_batch_dqlite_queries_def batch_step_def base_queries_def base_tables_def truthy_def

lemma microceph_filenames:
  assumes "sql_cmd config = Some ''microceph cluster sql''" "collection config = microceph_hook"
  shows "filenames (collect_pkg fs ''microceph'' config) =
    [''ls_microceph_dqlite_dir'', ''microceph_dqlite_schema'', ''microceph cluster sql_schema'',
     ''microceph_dqlite_token_records'', ''microceph cluster sql_token_records'',
     ''microceph_dqlite_core_cluster_members'', ''microceph cluster sql_core_cluster_members'',
     ''microceph_dqlite_config'', ''microceph cluster sql_config'',
     ''microceph_dqlite_services'', ''microceph cluster sql_services'',
     ''microceph_dqlite_disks'', ''microceph cluster sql_disks'',
     ''microceph_dqlite_client_config'', ''microceph cluster sql_client_config'',
     ''microceph_dqlite_remote'', ''microceph cluster sql_remote'']"
  using assms by (simp add: plan_defs filenames_simps)

lemma microovn_filenames:
  assumes "sql_cmd config = Some ''microovn cluster sql''" "collection config = microovn_hook"
  shows "filenames (collect_pkg fs ''microovn'' config) =
    [''ls_microovn_dqlite_dir'', ''microovn_dqlite_schema'', ''microovn cluster sql_schema'',
     ''microovn_dqlite_token_records'', ''microovn cluster sql_token_records'',
     ''microovn_dqlite_core_cluster_members'', ''microovn cluster sql_core_cluster_members'',
     ''microovn_dqlite_config'', ''microovn cluster sql_config'',
     ''microovn_dqlite_services'', ''microovn cluster sql_services'']"
  using assms by (simp add: plan_defs filenames_simps)

lemma microcloud_filenames:
  assumes "sql_cmd config = Some ''microcloud sql''" "collection config = microcloud_hook"
  shows "filenames (collect_pkg fs ''microcloud'' config) =
    [''ls_microcloud_dqlite_dir'', ''microcloud_dqlite_schema'', ''microcloud sql_schema'',
     ''microcloud_dqlite_token_records'', ''microcloud sql_token_records'',
     ''microcloud_dqlite_core_cluster_members'', ''microcloud sql_core_cluster_members'']"
  using assms by (simp add: plan_defs filenames_simps)

lemma lxd_filenames:
  assumes "sql_cmd config = Some ''lxd sql local''" "collection config = lxd_hook"
  shows "filenames (collect_pkg fs ''lxd'' config) =
    [''ls_lxd_dqlite_dir'', ''lxd_dqlite_schema'', ''lxd sql local_schema'',
     ''lxd_dqlite_config'', ''lxd sql local_config'']"
  using assms by (simp add: plan_defs filenames_simps)

lemma other_distinct:
  assumes "(pkg, config) \<in> set packages" "pkg \<noteq> ''microk8s''"
  shows "distinct (filenames (collect_pkg fs pkg config))"
  using assms(1)
proof (cases rule: packages_cases)
  case 1 show ?thesis unfolding 1(1) microceph_filenames [OF 1(2,3)] by code_simp
next
  case 2 show ?thesis unfolding 2(1) microovn_filenames [OF 2(2,3)] by code_simp
next
  case 3 show ?thesis unfolding 3(1) microcloud_filenames [OF 3(2,3)] by code_simp
next
  case 4 with assms(2) show ?thesis by simp
next
  case 5 show ?thesis unfolding 5(1) lxd_filenames [OF 5(2,3)] by code_simp
qed

lemma findall_two_a:
  "findall address_rx ''Address: 10.0.0.1:7000\<newline>Address: 10.0.0.2:7000'' =
     [''10.0.0.1:7000'', ''10.0.0.2:7000'']"
  by code_simp

lemma findall_two_b:
  "findall address_rx ''Address: 10.0.0.1:7000\<newline>Address: 10.0.0.2:7000\<newline>'' =
     [''10.0.0.1:7000'', ''10.0.0.2:7000'']"
  by code_simp

lemma findall_dup:
  "findall address_rx ''Address: 10.0.0.1:7000\<newline>Address: 10.0.0.1:7000'' =
     [''10.0.0.1:7000'', ''10.0.0.1:7000'']"
  by code_simp

lemma microk8s_in_packages:
  "(''microk8s'', the (map_of packages ''microk8s'')) \<in> set packages"
  by (simp add: packages_def)

text \<open>
  C1, as stated, fails: the hook derives one \<^verbatim>\<open>.describe_<addr>\<close> name from every match of
  the address pattern and removes no duplicates, so a topology file that lists an address
  twice gives the same file name twice.
\<close>

theorem C1_duplicate_address_counterexample:
  "(''microk8s'', the (map_of packages ''microk8s'')) \<in> set packages \<and>
   filenames (collect_pkg (\<lambda>p. Inr ''Address: 10.0.0.1:7000\<newline>Address: 10.0.0.1:7000'')
      ''microk8s'' (the (map_of packages ''microk8s''))) =
     [''ls_microk8s_dqlite_dir'', ''microk8s_dqlite_'' @ [dq] @ ''.cluster'' @ [dq],
      ''microk8s_dqlite_'' @ [dq] @ ''.cluster'' @ [dq] @ '' -f json'',
      ''microk8s_dqlite_'' @ [dq] @ ''.leader'' @ [dq],
      ''microk8s_dqlite_.describe_10.0.0.1:7000'', ''microk8s_dqlite_.describe_10.0.0.1:7000''] \<and>
   \<not> distinct (filenames (collect_pkg
      (\<lambda>p. Inr ''Address: 10.0.0.1:7000\<newline>Address: 10.0.0.1:7000'')
      ''microk8s'' (the (map_of packages ''microk8s''))))"
  by (simp add: packages_def collect_pkg_def base_collection_def microk8s_collection_def
      filenames_def findall_dup fixed_queries_def)

text \<open>
  C1 (amended): for every backend of the registry and every content of the topology file,
  the file names suggested in one run of that backend (directory listing, socket and CLI
  results, the hook's results) are pairwise different exactly when the addresses matched in
  the topology file are pairwise different; for the four backends other than microk8s they
  always are.
\<close>

theorem C1_filenames_distinct:
  assumes "(pkg, config) \<in> set packages"
  shows "distinct (filenames (collect_pkg fs pkg config)) \<longleftrightarrow>
           (pkg = ''microk8s'' \<longrightarrow> distinct (nodes_of fs config))"
proof (cases "pkg = ''microk8s''")
  case True
  with assms have "collection config = microk8s_hook"
    by (auto elim: packages_cases)
  with True show ?thesis
    by (simp add: microk8s_distinct)
next
  case False
  with assms show ?thesis
    by (simp add: other_distinct)
qed

theorem C1_filenames_distinct_witness:
  "(''microk8s'', the (map_of packages ''microk8s'')) \<in> set packages \<and>
   nodes_of (\<lambda>p. Inr ''Address: 10.0.0.1:7000\<newline>Address: 10.0.0.2:7000'')
     (the (map_of packages ''microk8s'')) = [''10.0.0.1:7000'', ''10.0.0.2:7000''] \<and>
   distinct (filenames (collect_pkg (\<lambda>p. Inr ''Address: 10.0.0.1:7000\<newline>Address: 10.0.0.2:7000'')
     ''microk8s'' (the (map_of packages ''microk8s''))))"
proof -
  have n: "nodes_of (\<lambda>p. Inr ''Address: 10.0.0.1:7000\<newline>Address: 10.0.0.2:7000'')
     (the (map_of packages ''microk8s'')) = [''10.0.0.1:7000'', ''10.0.0.2:7000'']"
    by (simp add: nodes_of_def findall_two_a)
  show ?thesis
    using C1_filenames_distinct [OF microk8s_in_packages,
        of "\<lambda>p. Inr ''Address: 10.0.0.1:7000\<newline>Address: 10.0.0.2:7000''"]
      microk8s_in_packages n
    by simp
qed

section \<open>The form of the file names\<close>

lemma no_infix: "\<not> sublist ''_dqlite_'' ''microceph cluster sql_schema''"
  by code_simp

lemma cmd_outputs_mem:
  "a \<in> set (cmd_outputs xs) \<longleftrightarrow> a \<in> set xs \<and> is_CmdOutput a"
  by (auto simp: cmd_outputs_def split: action.splits)

lemma cmd_outputs_simps:
  "cmd_outputs [] = []"
  "cmd_outputs (DirListing p f d # xs) = cmd_outputs xs"
  "cmd_outputs (CopySpec ps # xs) = cmd_outputs xs"
  "cmd_outputs (CmdOutput c f d # xs) = CmdOutput c f d # cmd_outputs xs"
  "cmd_outputs (Alert m # xs) = cmd_outputs xs"
  "cmd_outputs (xs @ ys) = cmd_outputs xs @ cmd_outputs ys"
  by (simp_all add: cmd_outputs_def)

lemma cmd_outputs_subset: "set (cmd_outputs xs) \<subseteq> set xs"
  by (auto simp: cmd_outputs_def)

lemma batch_forms:
  assumes "a \<in> set (run_batch_dqlite_queries pkg cfg queries tables)"
  obtains q t where "(q, t) \<in> set (zip queries tables)"
    and "a = CmdOutput (socket_cmd pkg cfg q) (pkg @ ''_dqlite_'' @ t) pkg \<or>
         truthy (sql_cmd cfg) \<and>
         a = CmdOutput (the (sql_cmd cfg) @ '' '' @ json_dumps_str q)
               (the (sql_cmd cfg) @ ''_'' @ t) pkg"
  using assms
  by (auto simp: run_batch_dqlite_queries_def batch_step_def split: if_splits)

lemma base_pairs: "set (zip (base_queries pkg) (base_tables pkg)) \<subseteq> set labelled_queries"
  by (auto simp: base_queries_def base_tables_def labelled_queries_def)

lemma zip_maps:
  "(x, y) \<in> set (zip (map f xs) (map g xs)) \<Longrightarrow> \<exists>n\<in>set xs. x = f n \<and> y = g n"
  by (induction xs) auto

lemma zip_map_right:
  "(x, y) \<in> set (zip xs (map g xs)) \<Longrightarrow> x \<in> set xs \<and> y = g x"
  by (induction xs) auto

lemma microk8s_forms:
  assumes "a \<in> set (cmd_outputs (microk8s_collection fs pkg cfg))"
  shows "(\<exists>q\<in>set fixed_queries.
            a = CmdOutput (dqlite_cmd cfg @ '' '' @ q) (pkg @ ''_dqlite_'' @ q) pkg) \<or>
         (\<exists>node. is_address node \<and>
            a = CmdOutput (dqlite_cmd cfg @ '' '' @ describe_query node)
                  (pkg @ ''_dqlite_.describe_'' @ node) pkg)"
proof -
  define nodes where "nodes = nodes_of fs cfg"
  have n: "is_address node" if "node \<in> set nodes" for node
    using that findall_address
    by (auto simp: nodes_def nodes_of_def split: sum.splits)
  from assms obtain q s where a: "a = CmdOutput (dqlite_cmd cfg @ '' '' @ q) s pkg"
    and "(q, s) \<in> set (zip fixed_queries (map (\<lambda>q. pkg @ ''_dqlite_'' @ q) fixed_queries)) \<or>
         (q, s) \<in> set (zip (map describe_query nodes)
                            (map (\<lambda>node. pkg @ ''_dqlite_.describe_'' @ node) nodes))"
    by (auto simp: microk8s_collection_def cmd_outputs_mem Let_def nodes_def nodes_of_def
        split: sum.splits)
  then show ?thesis
    using n by (auto dest!: zip_maps zip_map_right)
qed

text \<open>
  C4, as stated, fails twice: the CLI transport names its results \<^verbatim>\<open><sql_cmd>_<table>\<close>,
  without \<^verbatim>\<open>_dqlite_\<close>, and the names of the three fixed microk8s queries carry the query
  text with its double quotes (and \<^verbatim>\<open> -f json\<close>), not the bare \<^verbatim>\<open>.cluster\<close> and \<^verbatim>\<open>.leader\<close>.
\<close>

theorem C4_names_counterexample:
  "CmdOutput (''microceph cluster sql '' @ json_dumps_str q_schema)
      ''microceph cluster sql_schema'' ''microceph''
     \<in> set (cmd_outputs (collect_pkg (\<lambda>p. Inl []) ''microceph''
               (the (map_of packages ''microceph'')))) \<and>
   \<not> sublist ''_dqlite_'' ''microceph cluster sql_schema'' \<and>
   CmdOutput (dqlite_cmd (the (map_of packages ''microk8s'')) @ '' '' @ [dq] @ ''.cluster'' @ [dq])
      (''microk8s_dqlite_'' @ [dq] @ ''.cluster'' @ [dq]) ''microk8s''
     \<in> set (cmd_outputs (collect_pkg (\<lambda>p. Inl []) ''microk8s''
               (the (map_of packages ''microk8s'')))) \<and>
   ''microk8s_dqlite_'' @ [dq] @ ''.cluster'' @ [dq] \<noteq> ''microk8s_dqlite_.cluster''"
  by (simp add: no_infix packages_def plan_defs cmd_outputs_simps microk8s_collection_def
      fixed_queries_def dq_def)

text \<open>
  C4 (amended): every command result of a backend's run goes to the subdirectory named
  like the backend.  The result of a socket request for a query is named
  \<^verbatim>\<open><backend>_dqlite_<table>\<close> and the result of the CLI request for it \<^verbatim>\<open><sql_cmd>_<table>\<close>,
  where the table is the one of that query, among \<^verbatim>\<open>schema\<close>, \<^verbatim>\<open>token_records\<close>,
  \<^verbatim>\<open>core_cluster_members\<close>, \<^verbatim>\<open>config\<close>, \<^verbatim>\<open>services\<close>, \<^verbatim>\<open>disks\<close>, \<^verbatim>\<open>client_config\<close>, \<^verbatim>\<open>remote\<close>.
  The microk8s hook names the result of each of its three fixed queries
  \<^verbatim>\<open><backend>_dqlite_<query>\<close>, with the query text as it stands on the command line, and the
  result of the \<^verbatim>\<open>.describe\<close> query for an address \<^verbatim>\<open>d.d.d.d:d\<close> of decimal digits
  \<^verbatim>\<open><backend>_dqlite_.describe_<ip:port>\<close>.
\<close>

theorem C4_names:
  assumes "a \<in> set (cmd_outputs (collect_pkg fs pkg config))"
  shows "(\<exists>q t. (q, t) \<in> set labelled_queries \<and>
            a = CmdOutput (socket_cmd pkg config q) (pkg @ ''_dqlite_'' @ t) pkg) \<or>
         (\<exists>q t. (q, t) \<in> set labelled_queries \<and> truthy (sql_cmd config) \<and>
            a = CmdOutput (the (sql_cmd config) @ '' '' @ json_dumps_str q)
                  (the (sql_cmd config) @ ''_'' @ t) pkg) \<or>
         collection config = microk8s_hook \<and>
         ((\<exists>q\<in>set fixed_queries.
             a = CmdOutput (dqlite_cmd config @ '' '' @ q) (pkg @ ''_dqlite_'' @ q) pkg) \<or>
          (\<exists>node. is_address node \<and>
             a = CmdOutput (dqlite_cmd config @ '' '' @ describe_query node)
                   (pkg @ ''_dqlite_.describe_'' @ node) pkg))"
proof -
  from assms consider
      (base) "a \<in> set (run_batch_dqlite_queries pkg config (base_queries pkg) (base_tables pkg))"
    | (hook) "a \<in> set (cmd_outputs (call_collection (collection config) fs pkg config))"
    using cmd_outputs_subset
    by (fastforce simp: collect_pkg_def base_collection_def cmd_outputs_simps split: if_splits)
  then show ?thesis
  proof cases
    case base
    then obtain q t where "(q, t) \<in> set (zip (base_queries pkg) (base_tables pkg))"
      and "a = CmdOutput (socket_cmd pkg config q) (pkg @ ''_dqlite_'' @ t) pkg \<or>
           truthy (sql_cmd config) \<and>
           a = CmdOutput (the (sql_cmd config) @ '' '' @ json_dumps_str q)
                 (the (sql_cmd config) @ ''_'' @ t) pkg"
      by (rule batch_forms)
    with base_pairs [of pkg] show ?thesis by blast
  next
    case hook
    show ?thesis
    proof (cases "collection config")
      case microceph_hook
      with hook have "a \<in> set (run_batch_dqlite_queries pkg config
          [''SELECT * FROM disks;'', ''SELECT * FROM client_config;'', ''SELECT * FROM remote;'']
          [''disks'', ''client_config'', ''remote''])"
        using cmd_outputs_subset by (auto simp: microceph_collection_def)
      then obtain q t where "(q, t) \<in> set (zip
          [''SELECT * FROM disks;'', ''SELECT * FROM client_config;'', ''SELECT * FROM remote;'']
          [''disks'', ''client_config'', ''remote''])"
        and "a = CmdOutput (socket_cmd pkg config q) (pkg @ ''_dqlite_'' @ t) pkg \<or>
             truthy (sql_cmd config) \<and>
             a = CmdOutput (the (sql_cmd config) @ '' '' @ json_dumps_str q)
                   (the (sql_cmd config) @ ''_'' @ t) pkg"
        by (rule batch_forms)
      moreover from this(1) have "(q, t) \<in> set labelled_queries"
        by (auto simp: labelled_queries_def)
      ultimately show ?thesis by blast
    next
      case microk8s_hook
      with hook microk8s_forms [of a fs pkg config] show ?thesis by simp
    qed (use hook in \<open>simp_all add: microovn_collection_def microcloud_collection_def
          lxd_collection_def cmd_outputs_simps\<close>)
  qed
qed

theorem C4_names_witness:
  "CmdOutput (socket_cmd ''lxd'' (the (map_of packages ''lxd'')) q_schema) ''lxd_dqlite_schema'' ''lxd''
     \<in> set (cmd_outputs (collect_pkg (\<lambda>p. Inl []) ''lxd'' (the (map_of packages ''lxd'')))) \<and>
   CmdOutput (''lxd sql local '' @ json_dumps_str q_schema) ''lxd sql local_schema'' ''lxd''
     \<in> set (cmd_outputs (collect_pkg (\<lambda>p. Inl []) ''lxd'' (the (map_of packages ''lxd'')))) \<and>
   (q_schema, ''schema'') \<in> set labelled_queries"
proof -
  have m: "CmdOutput (socket_cmd ''lxd'' (the (map_of packages ''lxd'')) q_schema)
      ''lxd_dqlite_schema'' ''lxd''
     \<in> set (cmd_outputs (collect_pkg (\<lambda>p. Inl []) ''lxd'' (the (map_of packages ''lxd''))))"
    by (simp add: packages_def plan_defs cmd_outputs_simps)
  have c: "CmdOutput (''lxd sql local '' @ json_dumps_str q_schema) ''lxd sql local_schema'' ''lxd''
     \<in> set (cmd_outputs (collect_pkg (\<lambda>p. Inl []) ''lxd'' (the (map_of packages ''lxd''))))"
    by (simp add: packages_def plan_defs cmd_outputs_simps)
  show ?thesis
    using C4_names [OF m] m c by (simp add: labelled_queries_def)
qed

section \<open>The microk8s hook on a given topology file\<close>

text \<open>
  C8: on a topology file that consists of the two lines \<^verbatim>\<open>Address: 10.0.0.1:7000\<close> and
  \<^verbatim>\<open>Address: 10.0.0.2:7000\<close> (with or without a final newline) the hook issues five commands
  and no other: the two cluster queries, the leader query, and one \<^verbatim>\<open>.describe\<close> query for
  each address, the first for 10.0.0.1:7000 and the second for 10.0.0.2:7000.
\<close>

theorem C8_two_addresses:
  assumes "fs (db_path cfg @ ''/cluster.yaml'') = Inr topo"
    and "topo = ''Address: 10.0.0.1:7000\<newline>Address: 10.0.0.2:7000'' \<or>
         topo = ''Address: 10.0.0.1:7000\<newline>Address: 10.0.0.2:7000\<newline>''"
  shows "cmd_outputs (microk8s_collection fs pkg cfg) =
     [CmdOutput (dqlite_cmd cfg @ '' '' @ [dq] @ ''.cluster'' @ [dq])
        (pkg @ ''_dqlite_'' @ [dq] @ ''.cluster'' @ [dq]) pkg,
      CmdOutput (dqlite_cmd cfg @ '' '' @ [dq] @ ''.cluster'' @ [dq] @ '' -f json'')
        (pkg @ ''_dqlite_'' @ [dq] @ ''.cluster'' @ [dq] @ '' -f json'') pkg,
      CmdOutput (dqlite_cmd cfg @ '' '' @ [dq] @ ''.leader'' @ [dq])
        (pkg @ ''_dqlite_'' @ [dq] @ ''.leader'' @ [dq]) pkg,
      CmdOutput (dqlite_cmd cfg @ '' '' @ [dq] @ ''.describe 10.0.0.1:7000'' @ [dq] @ '' -f json'')
        (pkg @ ''_dqlite_.describe_10.0.0.1:7000'') pkg,
      CmdOutput (dqlite_cmd cfg @ '' '' @ [dq] @ ''.describe 10.0.0.2:7000'' @ [dq] @ '' -f json'')
        (pkg @ ''_dqlite_.describe_10.0.0.2:7000'') pkg]"
proof -
  from assms(2) have "findall address_rx topo = [''10.0.0.1:7000'', ''10.0.0.2:7000'']"
    using findall_two_a findall_two_b by blast
  with assms(1) show ?thesis
    by (simp add: microk8s_collection_def cmd_outputs_def fixed_queries_def describe_query_def)
qed

theorem C8_two_addresses_witness:
  "map suggest_filename (cmd_outputs (microk8s_collection
      (\<lambda>p. Inr ''Address: 10.0.0.1:7000\<newline>Address: 10.0.0.2:7000\<newline>'')
      ''microk8s'' (the (map_of packages ''microk8s'')))) =
     [''microk8s_dqlite_'' @ [dq] @ ''.cluster'' @ [dq],
      ''microk8s_dqlite_'' @ [dq] @ ''.cluster'' @ [dq] @ '' -f json'',
      ''microk8s_dqlite_'' @ [dq] @ ''.leader'' @ [dq],
      ''microk8s_dqlite_.describe_10.0.0.1:7000'', ''microk8s_dqlite_.describe_10.0.0.2:7000'']"
  using C8_two_addresses [of "\<lambda>p. Inr ''Address: 10.0.0.1:7000\<newline>Address: 10.0.0.2:7000\<newline>''"
      "the (map_of packages ''microk8s'')"
      "''Address: 10.0.0.1:7000\<newline>Address: 10.0.0.2:7000\<newline>''" "''microk8s''"]
  by simp

lemma findall_malformed: "findall address_rx ''Address: 10.0.0:7000'' = []"
  by code_simp

lemma findall_empty: "findall address_rx ''servers: none'' = []"
  by code_simp

text \<open>
  C9, as stated, fails for a topology file that can be read but holds no address the
  pattern matches (here an address of three numbers): \<^verbatim>\<open>re.findall\<close> gives the empty list
  without raising, so no alert is recorded.
\<close>

theorem C9_unparsable_counterexample:
  "findall address_rx ''Address: 10.0.0:7000'' = [] \<and>
   microk8s_collection (\<lambda>p. Inr ''Address: 10.0.0:7000'') ''microk8s''
       (the (map_of packages ''microk8s'')) =
     [CopySpec [''/var/snap/microk8s/current/credentials/client.config'',
                ''/var/snap/microk8s/current/var/kubernetes/backend/failure-domain''],
      CmdOutput (dqlite_cmd (the (map_of packages ''microk8s'')) @ '' '' @ [dq] @ ''.cluster'' @ [dq])
        (''microk8s_dqlite_'' @ [dq] @ ''.cluster'' @ [dq]) ''microk8s'',
      CmdOutput (dqlite_cmd (the (map_of packages ''microk8s'')) @ '' '' @ [dq] @ ''.cluster'' @ [dq]
                   @ '' -f json'')
        (''microk8s_dqlite_'' @ [dq] @ ''.cluster'' @ [dq] @ '' -f json'') ''microk8s'',
      CmdOutput (dqlite_cmd (the (map_of packages ''microk8s'')) @ '' '' @ [dq] @ ''.leader'' @ [dq])
        (''microk8s_dqlite_'' @ [dq] @ ''.leader'' @ [dq]) ''microk8s'']"
  by (simp add: findall_malformed microk8s_collection_def fixed_queries_def packages_def)

text \<open>
  C9 (amended): when reading the topology file raises, the hook returns normally: it
  records one alert that names the file and carries the exception's message, issues the
  two cluster queries and the leader query, and issues no \<^verbatim>\<open>.describe\<close> query.  When the
  file can be read, no alert is recorded whatever it holds; a file in which the pattern
  finds no address gives the three fixed queries and no \<^verbatim>\<open>.describe\<close> query.
\<close>

theorem C9_topology_failure:
  "(fs (db_path cfg @ ''/cluster.yaml'') = Inl e \<longrightarrow>
      microk8s_collection fs pkg cfg =
        [CopySpec [''/var/snap/microk8s/current/credentials/client.config'',
                   db_path cfg @ ''/failure-domain''],
         Alert (''Failed to parse '' @ db_path cfg @ ''/cluster.yaml'' @ '': '' @ e),
         CmdOutput (dqlite_cmd cfg @ '' '' @ [dq] @ ''.cluster'' @ [dq])
           (pkg @ ''_dqlite_'' @ [dq] @ ''.cluster'' @ [dq]) pkg,
         CmdOutput (dqlite_cmd cfg @ '' '' @ [dq] @ ''.cluster'' @ [dq] @ '' -f json'')
           (pkg @ ''_dqlite_'' @ [dq] @ ''.cluster'' @ [dq] @ '' -f json'') pkg,
         CmdOutput (dqlite_cmd cfg @ '' '' @ [dq] @ ''.leader'' @ [dq])
           (pkg @ ''_dqlite_'' @ [dq] @ ''.leader'' @ [dq]) pkg]) \<and>
   (fs (db_path cfg @ ''/cluster.yaml'') = Inr topo \<longrightarrow>
      (\<forall>m. Alert m \<notin> set (microk8s_collection fs pkg cfg)) \<and>
      (findall address_rx topo = [] \<longrightarrow>
         microk8s_collection fs pkg cfg =
           [CopySpec [''/var/snap/microk8s/current/credentials/client.config'',
                      db_path cfg @ ''/failure-domain''],
            CmdOutput (dqlite_cmd cfg @ '' '' @ [dq] @ ''.cluster'' @ [dq])
              (pkg @ ''_dqlite_'' @ [dq] @ ''.cluster'' @ [dq]) pkg,
            CmdOutput (dqlite_cmd cfg @ '' '' @ [dq] @ ''.cluster'' @ [dq] @ '' -f json'')
              (pkg @ ''_dqlite_'' @ [dq] @ ''.cluster'' @ [dq] @ '' -f json'') pkg,
            CmdOutput (dqlite_cmd cfg @ '' '' @ [dq] @ ''.leader'' @ [dq])
              (pkg @ ''_dqlite_'' @ [dq] @ ''.leader'' @ [dq]) pkg]))"
proof (intro conjI impI allI)
  assume "fs (db_path cfg @ ''/cluster.yaml'') = Inl e"
  then show "microk8s_collection fs pkg cfg =
        [CopySpec [''/var/snap/microk8s/current/credentials/client.config'',
                   db_path cfg @ ''/failure-domain''],
         Alert (''Failed to parse '' @ db_path cfg @ ''/cluster.yaml'' @ '': '' @ e),
         CmdOutput (dqlite_cmd cfg @ '' '' @ [dq] @ ''.cluster'' @ [dq])
           (pkg @ ''_dqlite_'' @ [dq] @ ''.cluster'' @ [dq]) pkg,
         CmdOutput (dqlite_cmd cfg @ '' '' @ [dq] @ ''.cluster'' @ [dq] @ '' -f json'')
           (pkg @ ''_dqlite_'' @ [dq] @ ''.cluster'' @ [dq] @ '' -f json'') pkg,
         CmdOutput (dqlite_cmd cfg @ '' '' @ [dq] @ ''.leader'' @ [dq])
           (pkg @ ''_dqlite_'' @ [dq] @ ''.leader'' @ [dq]) pkg]"
    by (simp add: microk8s_collection_def fixed_queries_def)
next
  fix m
  assume "fs (db_path cfg @ ''/cluster.yaml'') = Inr topo"
  then show "Alert m \<notin> set (microk8s_collection fs pkg cfg)"
    by (auto simp: microk8s_collection_def Let_def)
next
  assume "fs (db_path cfg @ ''/cluster.yaml'') = Inr topo" "findall address_rx topo = []"
  then show "microk8s_collection fs pkg cfg =
           [CopySpec [''/var/snap/microk8s/current/credentials/client.config'',
                      db_path cfg @ ''/failure-domain''],
            CmdOutput (dqlite_cmd cfg @ '' '' @ [dq] @ ''.cluster'' @ [dq])
              (pkg @ ''_dqlite_'' @ [dq] @ ''.cluster'' @ [dq]) pkg,
            CmdOutput (dqlite_cmd cfg @ '' '' @ [dq] @ ''.cluster'' @ [dq] @ '' -f json'')
              (pkg @ ''_dqlite_'' @ [dq] @ ''.cluster'' @ [dq] @ '' -f json'') pkg,
            CmdOutput (dqlite_cmd cfg @ '' '' @ [dq] @ ''.leader'' @ [dq])
              (pkg @ ''_dqlite_'' @ [dq] @ ''.leader'' @ [dq]) pkg]"
    by (simp add: microk8s_collection_def fixed_queries_def)
qed

theorem C9_topology_failure_witness:
  "microk8s_collection (\<lambda>p. Inl ''No such file or directory'') ''microk8s''
      (the (map_of packages ''microk8s'')) ! 1 =
     Alert (''Failed to parse /var/snap/microk8s/current/var/kubernetes/backend/cluster.yaml: '' @
            ''No such file or directory'') \<and>
   length (microk8s_collection (\<lambda>p. Inl ''No such file or directory'') ''microk8s''
      (the (map_of packages ''microk8s''))) = 5 \<and>
   findall address_rx ''servers: none'' = [] \<and>
   length (microk8s_collection (\<lambda>p. Inr ''servers: none'') ''microk8s''
      (the (map_of packages ''microk8s''))) = 4 \<and>
   (\<forall>m. Alert m \<notin> set (microk8s_collection (\<lambda>p. Inr ''servers: none'') ''microk8s''
      (the (map_of packages ''microk8s''))))"
  using C9_topology_failure [of "\<lambda>p. Inl ''No such file or directory''"
      "the (map_of packages ''microk8s'')" "''No such file or directory''" "''microk8s''"]
    C9_topology_failure [of "\<lambda>p. Inr ''servers: none''"
      "the (map_of packages ''microk8s'')" _ "''microk8s''" "''servers: none''"]
    findall_empty
  by (simp add: packages_def)

section \<open>The two transports of one query\<close>

lemma batch_step_in:
  "(query, table) \<in> set (zip queries tables) \<Longrightarrow>
     set (batch_step pkg cfg (query, table))
       \<subseteq> set (run_batch_dqlite_queries pkg cfg queries tables)"
  by (auto simp: run_batch_dqlite_queries_def)

lemma execute_in:
  "CmdOutput c f d \<in> set as \<Longrightarrow>
     \<lparr>from_cmd = c, exit_status = fst (run c), stdout_text = snd (run c),
      filename = f, into_subdir = d\<rparr> \<in> set (execute run as)"
  by (force simp: execute_def)

text \<open>
  C10: for a configuration with a SQL CLI command and every query of a batch, the CLI
  command is requested and its result kept beside the result of the socket command, for
  every behaviour \<^verbatim>\<open>run\<close> of the commands, so also when the socket command ends with a
  status other than zero.
\<close>

theorem C10_cli_beside_socket:
  assumes "truthy (sql_cmd cfg)" and "(query, table) \<in> set (zip queries tables)"
  shows "\<lparr>from_cmd = the (sql_cmd cfg) @ '' '' @ json_dumps_str query,
          exit_status = fst (run (the (sql_cmd cfg) @ '' '' @ json_dumps_str query)),
          stdout_text = snd (run (the (sql_cmd cfg) @ '' '' @ json_dumps_str query)),
          filename = the (sql_cmd cfg) @ ''_'' @ table, into_subdir = pkg\<rparr>
           \<in> set (execute run (run_batch_dqlite_queries pkg cfg queries tables)) \<and>
         \<lparr>from_cmd = socket_cmd pkg cfg query,
          exit_status = fst (run (socket_cmd pkg cfg query)),
          stdout_text = snd (run (socket_cmd pkg cfg query)),
          filename = pkg @ ''_dqlite_'' @ table, into_subdir = pkg\<rparr>
           \<in> set (execute run (run_batch_dqlite_queries pkg cfg queries tables))"
proof -
  have "set (batch_step pkg cfg (query, table))
          \<subseteq> set (run_batch_dqlite_queries pkg cfg queries tables)"
    using assms(2) by (rule batch_step_in)
  moreover have "CmdOutput (the (sql_cmd cfg) @ '' '' @ json_dumps_str query)
                   (the (sql_cmd cfg) @ ''_'' @ table) pkg \<in> set (batch_step pkg cfg (query, table))"
    using assms(1) by (simp add: batch_step_def)
  moreover have "CmdOutput (socket_cmd pkg cfg query) (pkg @ ''_dqlite_'' @ table) pkg
                   \<in> set (batch_step pkg cfg (query, table))"
    by (simp add: batch_step_def)
  ultimately show ?thesis
    by (blast intro: execute_in)
qed

text \<open>The witness runs the lxd schema query where every socket command fails with status 7.\<close>

theorem C10_cli_beside_socket_witness:
  "truthy (sql_cmd (the (map_of packages ''lxd''))) \<and>
   fst ((\<lambda>c. if take 1 c = ''\<newline>'' then (7, []) else (0, ''ok''))
          (socket_cmd ''lxd'' (the (map_of packages ''lxd'')) q_schema)) = (7 :: int) \<and>
   \<lparr>from_cmd = ''lxd sql local '' @ json_dumps_str q_schema, exit_status = 0,
    stdout_text = ''ok'', filename = ''lxd sql local_schema'', into_subdir = ''lxd''\<rparr>
     \<in> set (execute (\<lambda>c. if take 1 c = ''\<newline>'' then (7, []) else (0, ''ok''))
              (run_batch_dqlite_queries ''lxd'' (the (map_of packages ''lxd''))
                 (base_queries ''lxd'') (base_tables ''lxd'')))"
proof -
  have t: "truthy (sql_cmd (the (map_of packages ''lxd'')))"
    by (simp add: packages_def truthy_def)
  have z: "(q_schema, ''schema'') \<in> set (zip (base_queries ''lxd'') (base_tables ''lxd''))"
    by (simp add: base_queries_def base_tables_def)
  have s: "sql_cmd (the (map_of packages ''lxd'')) = Some ''lxd sql local''"
    by (simp add: packages_def)
  show ?thesis
    using C10_cli_beside_socket [OF t z,
        of "\<lambda>c. if take 1 c = ''\<newline>'' then (7, []) else (0, ''ok'')" "''lxd''"] t
    by (simp add: s socket_cmd_def curl_cmd_def)
qed

section \<open>Redaction of the ceph configuration\<close>

lemma ceph_no_bol: "match_at ic ceph_regex False s = None"
  by (simp add: match_at_def ceph_regex_def)

lemma ceph_line:
  assumes "list_all is_space s1" "list_all is_space s2"
    and "stops Space v" and "list_all (\<lambda>c. c \<noteq> CHR 0x0A) v"
  shows "re_sub ic ceph_regex ceph_subst (''rgw keystone admin password'' @ s1 @ ''='' @ s2 @ v)
           = ''rgw keystone admin password'' @ s1 @ ''='' @ s2 @ ''*********''"
proof -
  let ?l = "''rgw keystone admin password'' @ s1 @ ''='' @ s2 @ v"
  let ?g = "[2 \<mapsto> ''rgw keystone admin password'',
            1 \<mapsto> ''rgw keystone admin password'' @ s1 @ ''='' @ s2, 3 \<mapsto> v]"
  have "match_at ic ceph_regex True (?l @ []) = Some (?g, [])"
    by (rule match_at_pick) (rule ceph_picks [OF assms])
  then have "re_sub ic ceph_regex ceph_subst ?l = expand ceph_subst ?g @ []"
    by (intro re_sub_match ceph_no_bol) simp_all
  then show ?thesis
    by (simp add: expand_def ceph_subst_def grp_def)
qed

lemma ceph_conf_selected:
  "match_at False ceph_conf_path True ''/etc/ceph/ceph.conf'' \<noteq> None"
  by (simp add: match_at_def ceph_conf_path_def lit_def)

lemma hunter2_not_in_key: "\<not> sublist ''hunter2'' ''rgw keystone admin password''"
  by code_simp

lemma space_not_in_hunter2: "is_space c \<Longrightarrow> c \<notin> set ''hunter2''"
  by (auto simp: is_space_def)

text \<open>
  C7 (amended): the rule of \<^verbatim>\<open>CephCommon.postproc\<close> is applied to the collected file
  \<^verbatim>\<open>/etc/ceph/ceph.conf\<close>: a line of it that starts with the key
  \<^verbatim>\<open>rgw keystone admin password\<close>, followed by \<^verbatim>\<open>=\<close> with any white space around it and the
  value \<^verbatim>\<open>hunter2\<close>, reads after the redaction the key, the separator as it was and the mask
  \<^verbatim>\<open>*********\<close>, and does not contain \<^verbatim>\<open>hunter2\<close>; the other lines go through the same rule
  and the number of lines stays.
\<close>

theorem C7_ceph_conf_line:
  assumes "list_all is_space s1" "list_all is_space s2"
    and "list_all (\<lambda>l. CHR 0x0A \<notin> set l)
           (before @ [''rgw keystone admin password'' @ s1 @ ''='' @ s2 @ ''hunter2''] @ after)"
  shows "CephCommon_postproc ic
           [\<lparr>origin = File ''/etc/ceph/ceph.conf'',
             content = join_lines
               (before @ [''rgw keystone admin password'' @ s1 @ ''='' @ s2 @ ''hunter2''] @ after)\<rparr>]
         = [\<lparr>origin = File ''/etc/ceph/ceph.conf'',
             content = join_lines
               (map (re_sub ic ceph_regex ceph_subst) before
                @ [''rgw keystone admin password'' @ s1 @ ''='' @ s2 @ ''*********'']
                @ map (re_sub ic ceph_regex ceph_subst) after)\<rparr>]
         \<and> \<not> sublist ''hunter2'' (''rgw keystone admin password'' @ s1 @ ''='' @ s2 @ ''*********'')"
proof
  have line: "re_sub ic ceph_regex ceph_subst
      (''rgw keystone admin password'' @ s1 @ ''='' @ s2 @ ''hunter2'')
      = ''rgw keystone admin password'' @ s1 @ ''='' @ s2 @ ''*********''"
    using assms(1,2) by (intro ceph_line) (simp_all add: stops_def is_space_def)
  have "sub_lines ic ceph_regex ceph_subst (join_lines
          (before @ [''rgw keystone admin password'' @ s1 @ ''='' @ s2 @ ''hunter2''] @ after))
        = join_lines (map (re_sub ic ceph_regex ceph_subst)
          (before @ [''rgw keystone admin password'' @ s1 @ ''='' @ s2 @ ''hunter2''] @ after))"
    using assms(3) by (intro sub_lines_join) simp_all
  then show "CephCommon_postproc ic
           [\<lparr>origin = File ''/etc/ceph/ceph.conf'',
             content = join_lines
               (before @ [''rgw keystone admin password'' @ s1 @ ''='' @ s2 @ ''hunter2''] @ after)\<rparr>]
         = [\<lparr>origin = File ''/etc/ceph/ceph.conf'',
             content = join_lines
               (map (re_sub ic ceph_regex ceph_subst) before
                @ [''rgw keystone admin password'' @ s1 @ ''='' @ s2 @ ''*********'']
                @ map (re_sub ic ceph_regex ceph_subst) after)\<rparr>]"
    using ceph_conf_selected
    by (simp add: CephCommon_postproc_def do_path_regex_sub_def line del: append.simps)
next
  show "\<not> sublist ''hunter2'' (''rgw keystone admin password'' @ s1 @ ''='' @ s2 @ ''*********'')"
  proof
    assume "sublist ''hunter2'' (''rgw keystone admin password'' @ s1 @ ''='' @ s2 @ ''*********'')"
    moreover have "set (s1 @ ''='' @ s2 @ ''*********'') \<inter> set ''hunter2'' = {}"
      using assms(1,2) space_not_in_hunter2 by (auto simp: list_all_iff)
    ultimately have "sublist ''hunter2'' ''rgw keystone admin password''"
      by (rule sublist_left) simp
    with hunter2_not_in_key show False ..
  qed
qed

theorem C7_ceph_conf_line_witness:
  "CephCommon_postproc False
     [\<lparr>origin = File ''/etc/ceph/ceph.conf'',
       content = ''[global]\<newline>rgw keystone admin password = hunter2\<newline>''\<rparr>]
   = [\<lparr>origin = File ''/etc/ceph/ceph.conf'',
       content = ''[global]\<newline>rgw keystone admin password = *********\<newline>''\<rparr>]"
proof -
  have g: "re_sub False ceph_regex ceph_subst ''[global]'' = ''[global]''"
    by code_simp
  have e: "re_sub False ceph_regex ceph_subst [] = []"
    by code_simp
  show ?thesis
    using C7_ceph_conf_line [of "'' ''" "'' ''" "[''[global]'']" "[[]]" False]
    by (simp add: is_space_def join_lines_def g e)
qed

text \<open>
  C7, as stated, fails: the rule selects the file \<^verbatim>\<open>/etc/ceph/ceph.conf\<close>, not the output of
  a command, so the output of a configuration query keeps the value, even on a line that
  the pattern would match.
\<close>

theorem C7_command_output_counterexample:
  "CephCommon_postproc False
     [\<lparr>origin = Command (''microceph cluster sql '' @ json_dumps_str q_config),
       content = ''rgw keystone admin password = hunter2''\<rparr>]
   = [\<lparr>origin = Command (''microceph cluster sql '' @ json_dumps_str q_config),
       content = ''rgw keystone admin password = hunter2''\<rparr>] \<and>
   CephCommon_postproc True
     [\<lparr>origin = Command (''microceph cluster sql '' @ json_dumps_str q_config),
       content = ''rgw keystone admin password = hunter2''\<rparr>]
   = [\<lparr>origin = Command (''microceph cluster sql '' @ json_dumps_str q_config),
       content = ''rgw keystone admin password = hunter2''\<rparr>] \<and>
   sublist ''hunter2'' ''rgw keystone admin password = hunter2''"
  by (simp add: CephCommon_postproc_def do_path_regex_sub_def sublist_Cons_right)

section \<open>Redaction of the credentials file\<close>

lemma dqlite_semsE:
  assumes "sems ic dqlite_regexp True a Map.empty g"
  obtains (hash) ws0 ws1 K ws2 c v where
    "a = ws0 @ ''#'' @ ws1 @ K @ '':'' @ ws2 @ c # v"
    "list_all is_space ws0" "list_all is_space ws1" "key_text ic K"
    "list_all is_space ws2" "\<not> is_space c" "list_all (\<lambda>x. x \<noteq> CHR 0x0A) v"
    "grp g 1 = ''#'' @ ws1 @ K @ '':'' @ ws2"
  | (plain) ws0 ws1 K ws2 c v where
    "a = ws0 @ ws1 @ K @ '':'' @ ws2 @ c # v"
    "list_all is_space ws0" "list_all is_space ws1" "key_text ic K"
    "list_all is_space ws2" "\<not> is_space c" "list_all (\<lambda>x. x \<noteq> CHR 0x0A) v"
    "grp g 1 = ws1 @ K @ '':'' @ ws2"
  using assms
  by (auto simp: dqlite_regexp_def in_cls_eqs key_text_def length_Suc_conv grp_def)


lemma dqlite_no_bol: "match_at ic dqlite_regexp False s = None"
  by (simp add: match_at_def dqlite_regexp_def)

lemma key_text_head:
  assumes "key_text ic K"
  obtains x K' where "K = x # K'" "\<not> is_space x"
proof -
  have c: "CHR ''c'' \<in> set lower_case" by (simp add: lower_case_def)
  from assms obtain x K' where "K = x # K'" "chr_eq ic (CHR ''c'') x"
    by (auto simp: key_text_def protect_keys_def lit_match_def list_all2_Cons1)
  with chr_eq_letter_not_space [OF c] that show ?thesis by blast
qed

lemma not_space_hash: "\<not> is_space (CHR ''#'')"
  by (simp add: is_space_def)

lemma space_space: "is_space (CHR '' '')"
  by (simp add: is_space_def)

text \<open>One application of the credentials rule to a line that matches.\<close>

lemma dqlite_sub_match:
  assumes "match_at ic dqlite_regexp True t = Some (g, rest)"
  shows "re_sub ic dqlite_regexp dqlite_subst t = grp g 1 @ '' ******'' @ rest"
proof -
  from match_at_sound [OF assms] obtain a where a: "t = a @ rest"
    "sems ic dqlite_regexp True a Map.empty g" by blast
  from a(2) have "a \<noteq> []" by (cases rule: dqlite_semsE) auto
  with a(1) have "length rest < length t" by simp
  with assms have "re_sub ic dqlite_regexp dqlite_subst t = expand dqlite_subst g @ rest"
    by (intro re_sub_match dqlite_no_bol)
  then show ?thesis by (simp add: expand_def dqlite_subst_def)
qed

lemma dqlite_sub_changes:
  assumes "match_at ic dqlite_regexp True t = Some (g, rest)"
  shows "re_sub ic dqlite_regexp dqlite_subst t \<noteq> t"
proof
  assume eq: "re_sub ic dqlite_regexp dqlite_subst t = t"
  from match_at_sound [OF assms] obtain a where a: "t = a @ rest"
    "sems ic dqlite_regexp True a Map.empty g" by blast
  from eq a(1) have e: "grp g 1 @ '' ******'' = a"
    using dqlite_sub_match [OF assms] by simp
  from a(2) show False
  proof (cases rule: dqlite_semsE)
    case (hash ws0 ws1 K ws2 c v)
    from e hash(1,8) have "takeWhile is_space (CHR ''#'' # ws1 @ K @ '':'' @ ws2 @ '' ******'')
        = takeWhile is_space (ws0 @ CHR ''#'' # ws1 @ K @ '':'' @ ws2 @ c # v)"
      by simp
    then have "ws0 = []"
      using takeWhile_spaces [OF hash(2) not_space_hash] not_space_hash by simp
    with e hash(1,8) have "c = CHR '' ''" by simp
    with hash(6) space_space show False by simp
  next
    case (plain ws0 ws1 K ws2 c v)
    from plain(4) obtain x K' where K: "K = x # K'" "\<not> is_space x" by (rule key_text_head)
    have w: "list_all is_space (ws0 @ ws1)" using plain(2,3) by simp
    from e plain(1,8) K have "takeWhile is_space (ws1 @ x # K' @ '':'' @ ws2 @ '' ******'')
        = takeWhile is_space ((ws0 @ ws1) @ x # K' @ '':'' @ ws2 @ c # v)"
      by simp
    then have "ws1 = ws0 @ ws1"
      using takeWhile_spaces [OF plain(3) K(2)] takeWhile_spaces [OF w K(2)] by simp
    then have "ws0 = []" by simp
    with e plain(1,8) have "c = CHR '' ''" by simp
    with plain(6) space_space show False by simp
  qed
qed


lemma dqlite_semsI:
  assumes "list_all is_space ws0" "h = ''#'' \<or> h = []" "list_all is_space ws1" "key_text ic K"
    "list_all is_space ws2" "\<not> is_space c" "list_all (\<lambda>x. x \<noteq> CHR 0x0A) v"
  shows "sems ic dqlite_regexp True (ws0 @ (h @ ws1 @ K @ '':'' @ ws2) @ c # v) Map.empty
           [2 \<mapsto> K, 1 \<mapsto> h @ ws1 @ K @ '':'' @ ws2, 3 \<mapsto> c # v]"
proof -
  have tail: "sems ic [Lit '':'', Star Space] b ('':'' @ ws2) g g" for b g
  proof (rule sems_ConsI [where ?a1.0 = "'':''" and ?a2.0 = ws2 and ?g1.0 = g])
    show "sem ic (Lit '':'') b '':'' g g" by simp
    show "sems ic [Star Space] (b \<and> '':'' = []) ws2 g g"
      using assms(5) by (simp add: in_cls_eqs)
  qed simp
  have key: "sems ic [Group 2 [Alt protect_keys], Lit '':'', Star Space] b (K @ '':'' @ ws2)
      Map.empty [2 \<mapsto> K]" for b
  proof (rule sems_ConsI [where ?a1.0 = K and ?a2.0 = "'':'' @ ws2"])
    show "sem ic (Group 2 [Alt protect_keys]) b K Map.empty [2 \<mapsto> K]"
      using assms(4) by (simp add: key_text_def)
    show "sems ic [Lit '':'', Star Space] (b \<and> K = []) ('':'' @ ws2) [2 \<mapsto> K] [2 \<mapsto> K]"
      by (rule tail)
  qed simp
  have inner: "sems ic [Opt ''#'', Star Space, Group 2 [Alt protect_keys], Lit '':'', Star Space] b
      (h @ ws1 @ K @ '':'' @ ws2) Map.empty [2 \<mapsto> K]" for b
  proof (rule sems_ConsI [where ?a1.0 = h and ?a2.0 = "ws1 @ K @ '':'' @ ws2"])
    show "sem ic (Opt ''#'') b h Map.empty Map.empty"
      using assms(2) by auto
    show "sems ic [Star Space, Group 2 [Alt protect_keys], Lit '':'', Star Space] (b \<and> h = [])
        (ws1 @ K @ '':'' @ ws2) Map.empty [2 \<mapsto> K]"
    proof (rule sems_ConsI [where ?a1.0 = ws1 and ?a2.0 = "K @ '':'' @ ws2"])
      show "sem ic (Star Space) (b \<and> h = []) ws1 Map.empty Map.empty"
        using assms(3) by (simp add: in_cls_eqs)
      show "sems ic [Group 2 [Alt protect_keys], Lit '':'', Star Space] ((b \<and> h = []) \<and> ws1 = [])
          (K @ '':'' @ ws2) Map.empty [2 \<mapsto> K]"
        by (rule key)
    qed simp
  qed simp
  have last: "sems ic [Group 3 [One NonSpace, Star AnyChar]] b (c # v) g (g(3 \<mapsto> c # v))" for b g
  proof -
    have "sems ic [One NonSpace, Star AnyChar] b ([c] @ v) g g"
    proof (rule sems_ConsI [where ?a1.0 = "[c]" and ?a2.0 = v and ?g1.0 = g])
      show "sem ic (One NonSpace) b [c] g g"
        using assms(6) by simp
      show "sems ic [Star AnyChar] (b \<and> [c] = []) v g g"
        using assms(7) by (simp add: in_cls_eqs)
    qed simp
    then have "sem ic (Group 3 [One NonSpace, Star AnyChar]) b (c # v) g (g(3 \<mapsto> c # v))"
      by (intro sem_GroupI [where ?g0.0 = g]) simp_all
    then show ?thesis by simp
  qed
  have groups: "sems ic [Group 1 [Opt ''#'', Star Space, Group 2 [Alt protect_keys], Lit '':'', Star Space],
      Group 3 [One NonSpace, Star AnyChar]] b ((h @ ws1 @ K @ '':'' @ ws2) @ c # v) Map.empty
      [2 \<mapsto> K, 1 \<mapsto> h @ ws1 @ K @ '':'' @ ws2, 3 \<mapsto> c # v]" for b
  proof (rule sems_ConsI [where ?a1.0 = "h @ ws1 @ K @ '':'' @ ws2" and ?a2.0 = "c # v"])
    show "sem ic (Group 1 [Opt ''#'', Star Space, Group 2 [Alt protect_keys], Lit '':'', Star Space]) b
        (h @ ws1 @ K @ '':'' @ ws2) Map.empty [2 \<mapsto> K, 1 \<mapsto> h @ ws1 @ K @ '':'' @ ws2]"
      by (rule sem_GroupI [OF inner]) simp
    show "sems ic [Group 3 [One NonSpace, Star AnyChar]] (b \<and> h @ ws1 @ K @ '':'' @ ws2 = []) (c # v)
        [2 \<mapsto> K, 1 \<mapsto> h @ ws1 @ K @ '':'' @ ws2]
        [2 \<mapsto> K, 1 \<mapsto> h @ ws1 @ K @ '':'' @ ws2, 3 \<mapsto> c # v]"
      by (rule last)
  qed simp
  have "sems ic (Bol # Star Space # [Group 1 [Opt ''#'', Star Space, Group 2 [Alt protect_keys], Lit '':'', Star Space],
      Group 3 [One NonSpace, Star AnyChar]]) True ([] @ ws0 @ (h @ ws1 @ K @ '':'' @ ws2) @ c # v) Map.empty
      [2 \<mapsto> K, 1 \<mapsto> h @ ws1 @ K @ '':'' @ ws2, 3 \<mapsto> c # v]"
  proof (rule sems_ConsI [where ?a1.0 = "[]" and ?a2.0 = "ws0 @ (h @ ws1 @ K @ '':'' @ ws2) @ c # v"])
    show "sem ic Bol True [] Map.empty Map.empty" by simp
    show "sems ic (Star Space # [Group 1 [Opt ''#'', Star Space, Group 2 [Alt protect_keys], Lit '':'', Star Space],
      Group 3 [One NonSpace, Star AnyChar]]) (True \<and> [] = []) (ws0 @ (h @ ws1 @ K @ '':'' @ ws2) @ c # v)
      Map.empty [2 \<mapsto> K, 1 \<mapsto> h @ ws1 @ K @ '':'' @ ws2, 3 \<mapsto> c # v]"
    proof (rule sems_ConsI [where ?a1.0 = ws0 and ?a2.0 = "(h @ ws1 @ K @ '':'' @ ws2) @ c # v"])
      show "sem ic (Star Space) (True \<and> [] = []) ws0 Map.empty Map.empty"
        using assms(1) by (simp add: in_cls_eqs)
      show "sems ic [Group 1 [Opt ''#'', Star Space, Group 2 [Alt protect_keys], Lit '':'', Star Space],
          Group 3 [One NonSpace, Star AnyChar]] ((True \<and> [] = []) \<and> ws0 = [])
          ((h @ ws1 @ K @ '':'' @ ws2) @ c # v) Map.empty
          [2 \<mapsto> K, 1 \<mapsto> h @ ws1 @ K @ '':'' @ ws2, 3 \<mapsto> c # v]"
        by (rule groups)
    qed simp
  qed simp
  then show ?thesis by (simp add: dqlite_regexp_def)
qed

lemma not_space_star: "\<not> is_space (CHR ''*'')"
  by (simp add: is_space_def)

lemma dqlite_stays_matching:
  assumes "match_at ic dqlite_regexp True t = Some (g, rest)"
  shows "match_at ic dqlite_regexp True (re_sub ic dqlite_regexp dqlite_subst t) \<noteq> None"
proof -
  from match_at_sound [OF assms] obtain a where a: "t = a @ rest"
    "sems ic dqlite_regexp True a Map.empty g" by blast
  have "\<exists>h ws1 K ws2. grp g 1 = h @ ws1 @ K @ '':'' @ ws2 \<and> (h = ''#'' \<or> h = []) \<and>
      list_all is_space ws1 \<and> key_text ic K \<and> list_all is_space ws2"
    using a(2) by (cases rule: dqlite_semsE) (metis append_Nil)+
  then obtain h ws1 K ws2 where p: "grp g 1 = h @ ws1 @ K @ '':'' @ ws2" "h = ''#'' \<or> h = []"
    "list_all is_space ws1" "key_text ic K" "list_all is_space ws2" by blast
  have "sems ic dqlite_regexp True ([] @ (h @ ws1 @ K @ '':'' @ (ws2 @ '' '')) @ CHR ''*'' # ''*****'')
      Map.empty [2 \<mapsto> K, 1 \<mapsto> h @ ws1 @ K @ '':'' @ (ws2 @ '' ''), 3 \<mapsto> CHR ''*'' # ''*****'']"
    using p(2-5) not_space_star space_space by (intro dqlite_semsI) simp_all
  then have "match_at ic dqlite_regexp True
      (([] @ (h @ ws1 @ K @ '':'' @ (ws2 @ '' '')) @ CHR ''*'' # ''*****'') @ rest) \<noteq> None"
    by (rule match_at_complete)
  moreover have "re_sub ic dqlite_regexp dqlite_subst t
      = ([] @ (h @ ws1 @ K @ '':'' @ (ws2 @ '' '')) @ CHR ''*'' # ''*****'') @ rest"
    using dqlite_sub_match [OF assms] p(1) by simp
  ultimately show ?thesis by simp
qed

lemma dqlite_line_idempotent_iff:
  "re_sub ic dqlite_regexp dqlite_subst (re_sub ic dqlite_regexp dqlite_subst l)
     = re_sub ic dqlite_regexp dqlite_subst l \<longleftrightarrow> match_at ic dqlite_regexp True l = None"
proof (cases "match_at ic dqlite_regexp True l")
  case None
  then have "re_sub ic dqlite_regexp dqlite_subst l = l"
    by (intro re_sub_no_match dqlite_no_bol)
  with None show ?thesis by simp
next
  case (Some r)
  obtain g rest where r: "r = (g, rest)" by (cases r)
  from dqlite_stays_matching [OF Some [unfolded r]]
  obtain g' rest' where "match_at ic dqlite_regexp True (re_sub ic dqlite_regexp dqlite_subst l)
      = Some (g', rest')" by auto
  from dqlite_sub_changes [OF this] Some show ?thesis by simp
qed

lemma dqlite_sub_newline_free:
  assumes "CHR 0x0A \<notin> set l"
  shows "CHR 0x0A \<notin> set (re_sub ic dqlite_regexp dqlite_subst l)"
proof (cases "match_at ic dqlite_regexp True l")
  case None
  then have "re_sub ic dqlite_regexp dqlite_subst l = l"
    by (intro re_sub_no_match dqlite_no_bol)
  with assms show ?thesis by simp
next
  case (Some r)
  obtain g rest where r: "r = (g, rest)" by (cases r)
  with Some have m: "match_at ic dqlite_regexp True l = Some (g, rest)" by simp
  from match_at_sound [OF m] obtain a where a: "l = a @ rest"
    "sems ic dqlite_regexp True a Map.empty g" by blast
  from a(2) have "set (grp g 1) \<subseteq> set a"
    by (cases rule: dqlite_semsE) auto
  moreover have "re_sub ic dqlite_regexp dqlite_subst l = grp g 1 @ '' ******'' @ rest"
    by (rule dqlite_sub_match [OF m])
  ultimately show ?thesis
    using a(1) assms by auto
qed

text \<open>
  C5 (amended): the credentials-file rule is idempotent exactly on the texts it leaves
  alone: applying it twice gives the same text as applying it once if and only if no line
  of the text matches the pattern.  A line that matches is changed by every application,
  since the rewritten line matches again.
\<close>

theorem C5_idempotent_iff_no_match:
  "sub_lines ic dqlite_regexp dqlite_subst (sub_lines ic dqlite_regexp dqlite_subst text)
     = sub_lines ic dqlite_regexp dqlite_subst text
   \<longleftrightarrow> (\<forall>l \<in> set (split_lines text). match_at ic dqlite_regexp True l = None)"
proof -
  define f where "f = re_sub ic dqlite_regexp dqlite_subst"
  define ls where "ls = split_lines text"
  have ne: "ls \<noteq> []" and nf: "list_all (\<lambda>l. CHR 0x0A \<notin> set l) ls"
    by (simp_all add: ls_def split_lines_nonempty split_lines_newline_free)
  have nf1: "list_all (\<lambda>l. CHR 0x0A \<notin> set l) (map f ls)"
    using nf by (simp add: list_all_iff f_def dqlite_sub_newline_free)
  have nf2: "list_all (\<lambda>l. CHR 0x0A \<notin> set l) (map f (map f ls))"
    using nf1 by (simp add: list_all_iff f_def dqlite_sub_newline_free)
  have once: "sub_lines ic dqlite_regexp dqlite_subst text = join_lines (map f ls)"
    by (simp add: sub_lines_def f_def ls_def)
  have twice: "sub_lines ic dqlite_regexp dqlite_subst (join_lines (map f ls))
      = join_lines (map f (map f ls))"
    unfolding f_def using ne nf1 [unfolded f_def] by (intro sub_lines_join) simp_all
  have "join_lines (map f (map f ls)) = join_lines (map f ls) \<longleftrightarrow> map f (map f ls) = map f ls"
  proof
    assume "join_lines (map f (map f ls)) = join_lines (map f ls)"
    then show "map f (map f ls) = map f ls"
      by (intro join_lines_inj [OF _ _ nf2 nf1]) (use ne in simp_all)
  next
    assume "map f (map f ls) = map f ls"
    then show "join_lines (map f (map f ls)) = join_lines (map f ls)"
      by (rule arg_cong)
  qed
  also have "\<dots> \<longleftrightarrow> (\<forall>l \<in> set ls. f (f l) = f l)"
    by simp
  also have "\<dots> \<longleftrightarrow> (\<forall>l \<in> set ls. match_at ic dqlite_regexp True l = None)"
    by (simp add: f_def dqlite_line_idempotent_iff)
  finally have "join_lines (map f (map f ls)) = join_lines (map f ls)
      \<longleftrightarrow> (\<forall>l \<in> set ls. match_at ic dqlite_regexp True l = None)" .
  then have "sub_lines ic dqlite_regexp dqlite_subst (sub_lines ic dqlite_regexp dqlite_subst text)
      = sub_lines ic dqlite_regexp dqlite_subst text
      \<longleftrightarrow> (\<forall>l \<in> set ls. match_at ic dqlite_regexp True l = None)"
    unfolding once twice .
  then show ?thesis unfolding ls_def .
qed

lemma once_example:
  "sub_lines False dqlite_regexp dqlite_subst ''client-key-data: abc'' = ''client-key-data:  ******''"
  by code_simp

lemma twice_example:
  "sub_lines False dqlite_regexp dqlite_subst ''client-key-data:  ******'' = ''client-key-data:   ******''"
  by code_simp

lemma none_example:
  "match_at False dqlite_regexp True ''apiVersion: v1'' = None"
  by (simp add: match_at_def dqlite_regexp_def protect_keys_def lit_def is_space_def)

lemma none_example2:
  "match_at False dqlite_regexp True [] = None"
  by (simp add: match_at_def dqlite_regexp_def protect_keys_def lit_def is_space_def)

theorem C5_idempotent_iff_no_match_witness:
  "sub_lines False dqlite_regexp dqlite_subst
     (sub_lines False dqlite_regexp dqlite_subst ''apiVersion: v1\<newline>'')
   = sub_lines False dqlite_regexp dqlite_subst ''apiVersion: v1\<newline>''"
  using C5_idempotent_iff_no_match [of False "''apiVersion: v1\<newline>''"] none_example none_example2
  by simp

text \<open>
  C5, as stated, fails: the template \<^verbatim>\<open>\1 ******\<close> puts a space before the mask, and the
  white space before the value belongs to group 1, so a second application finds one more
  space in group 1 and writes one more space.
\<close>

theorem C5_second_application_counterexample:
  "sub_lines False dqlite_regexp dqlite_subst ''client-key-data: abc'' = ''client-key-data:  ******'' \<and>
   sub_lines False dqlite_regexp dqlite_subst
     (sub_lines False dqlite_regexp dqlite_subst ''client-key-data: abc'') = ''client-key-data:   ******'' \<and>
   sub_lines False dqlite_regexp dqlite_subst
     (sub_lines False dqlite_regexp dqlite_subst ''client-key-data: abc'')
     \<noteq> sub_lines False dqlite_regexp dqlite_subst ''client-key-data: abc''"
  by (simp add: once_example twice_example)

lemma once_example_ic:
  "sub_lines True dqlite_regexp dqlite_subst ''client-key-data: abc'' = ''client-key-data:  ******''"
  by code_simp

lemma twice_example_ic:
  "sub_lines True dqlite_regexp dqlite_subst ''client-key-data:  ******'' = ''client-key-data:   ******''"
  by code_simp

end
